theory Spec2Isabelle
  imports Complex_Main
begin

section \<open>The Blahut-Arimoto step of \<open>backend/bit_baa_fast.cc\<close>\<close>

subsection \<open>The arithmetic type \<open>Float\<close>\<close>

text \<open>
  The source computes in the C++ type \<open>Float\<close>. A value is a finite number, one of the
  two infinities, or not-a-number. Finite values carry exact reals here: rounding,
  overflow of finite results and the sign of zero are left out; the special values follow
  the IEEE rules the source relies on (\<open>log 0 = -inf\<close>, \<open>exp (-inf) = 0\<close>,
  \<open>inf - inf = NaN\<close>, \<open>0 * inf = NaN\<close>, every comparison with NaN is false).
  In this arithmetic "equal up to floating-point tolerance" is equality, and a failure
  of it is shown with a gap between the two values that no rounding could close.
\<close>

datatype Float = Fin real | PInf | MInf | NaN

fun fneg :: "Float \<Rightarrow> Float" where
  "fneg (Fin x) = Fin (- x)"
| "fneg PInf = MInf"
| "fneg MInf = PInf"
| "fneg NaN = NaN"

fun fadd :: "Float \<Rightarrow> Float \<Rightarrow> Float" where
  "fadd (Fin x) (Fin y) = Fin (x + y)"
| "fadd NaN b = NaN"
| "fadd a NaN = NaN"
| "fadd PInf MInf = NaN"
| "fadd MInf PInf = NaN"
| "fadd PInf b = PInf"
| "fadd a PInf = PInf"
| "fadd MInf b = MInf"
| "fadd a MInf = MInf"

definition fsub :: "Float \<Rightarrow> Float \<Rightarrow> Float" where
  "fsub a b = fadd a (fneg b)"

text \<open>The sign of a value that is not NaN, and the infinity of a given sign.\<close>

fun fsign :: "Float \<Rightarrow> real" where
  "fsign (Fin x) = sgn x"
| "fsign PInf = 1"
| "fsign MInf = - 1"
| "fsign NaN = 0"

definition inf_of_sign :: "real \<Rightarrow> Float" where
  "inf_of_sign s = (if 0 < s then PInf else if s < 0 then MInf else NaN)"

fun fmul :: "Float \<Rightarrow> Float \<Rightarrow> Float" where
  "fmul (Fin x) (Fin y) = Fin (x * y)"
| "fmul NaN b = NaN"
| "fmul a NaN = NaN"
| "fmul a b = inf_of_sign (fsign a * fsign b)"

text \<open>
  Division: a finite value over an infinity is 0, an infinity over an infinity is NaN,
  \<open>x / 0\<close> is the infinity of the sign of \<open>x\<close> and \<open>0 / 0\<close> is NaN (the zero divisor is
  taken as \<open>+0\<close>).
\<close>

fun fdiv :: "Float \<Rightarrow> Float \<Rightarrow> Float" where
  "fdiv (Fin x) (Fin y) = (if y = 0 then inf_of_sign x else Fin (x / y))"
| "fdiv NaN b = NaN"
| "fdiv a NaN = NaN"
| "fdiv (Fin x) b = Fin 0"
| "fdiv a (Fin y) = (if y < 0 then fneg a else a)"
| "fdiv a b = NaN"

fun flog :: "Float \<Rightarrow> Float" where
  "flog (Fin x) = (if 0 < x then Fin (ln x) else if x = 0 then MInf else NaN)"
| "flog PInf = PInf"
| "flog MInf = NaN"
| "flog NaN = NaN"

fun fexp :: "Float \<Rightarrow> Float" where
  "fexp (Fin x) = Fin (exp x)"
| "fexp PInf = PInf"
| "fexp MInf = Fin 0"
| "fexp NaN = NaN"

text \<open>The comparison \<open>a < b\<close> of the source.\<close>

fun flt :: "Float \<Rightarrow> Float \<Rightarrow> bool" where
  "flt (Fin x) (Fin y) = (x < y)"
| "flt NaN b = False"
| "flt a NaN = False"
| "flt a MInf = False"
| "flt MInf b = True"
| "flt PInf b = False"
| "flt a PInf = True"

fun fisnan :: "Float \<Rightarrow> bool" where
  "fisnan NaN = True"
| "fisnan a = False"

fun is_finite :: "Float \<Rightarrow> bool" where
  "is_finite (Fin x) = True"
| "is_finite a = False"

subsection \<open>Runs that leave defined behaviour\<close>

text \<open>
  The source has no failure channel of its own: every function returns a plain value.
  A run can still go wrong in two ways, both written out in the model: a read past the
  end of a vector (undefined behaviour in C++), and a failed \<open>assert\<close>.
\<close>

datatype fault = ReadPastEnd | AssertFailed

type_synonym 'a result = "fault + 'a"

definition bindr :: "'a result \<Rightarrow> ('a \<Rightarrow> 'b result) \<Rightarrow> 'b result" where
  "bindr m f = (case m of Inl e \<Rightarrow> Inl e | Inr x \<Rightarrow> f x)"

subsection \<open>Rows and columns of the transition table\<close>

text \<open>
  The transition model \<open>get_bit_transition_prob_fast\<close> is not part of the translated
  file; it is the parameter \<open>P\<close> of every function below, a finite number for each pair of
  a transmitted and a received codeword. Codewords are opaque (the type \<open>'w\<close>).
\<close>

definition compute_Pjk_row :: "('w \<Rightarrow> 'w \<Rightarrow> real) \<Rightarrow> 'w \<Rightarrow> 'w list \<Rightarrow> Float list" where
  "compute_Pjk_row P transmitted received = map (\<lambda>r. Fin (P transmitted r)) received"

definition compute_Pjk_col :: "('w \<Rightarrow> 'w \<Rightarrow> real) \<Rightarrow> 'w list \<Rightarrow> 'w \<Rightarrow> Float list" where
  "compute_Pjk_col P transmitted received = map (\<lambda>t. Fin (P t received)) transmitted"

subsection \<open>Denominators\<close>

text \<open>
  \<open>std::inner_product (first1, last1, first2, init)\<close> walks the first range and reads the
  second one alongside: a shorter second range is read past its end.
\<close>

fun inner_product :: "Float list \<Rightarrow> Float list \<Rightarrow> Float \<Rightarrow> Float result" where
  "inner_product [] ys init = Inr init"
| "inner_product (x # xs) [] init = Inl ReadPastEnd"
| "inner_product (x # xs) (y # ys) init = inner_product xs ys (fadd init (fmul x y))"

definition compute_Wjk_den :: "('w \<Rightarrow> 'w \<Rightarrow> real) \<Rightarrow> 'w list \<Rightarrow> 'w \<Rightarrow> Float list \<Rightarrow> Float result" where
  "compute_Wjk_den P transmitted received Q_i =
     inner_product (compute_Pjk_col P transmitted received) Q_i (Fin 0)"

text \<open>
  The loop of \<open>compute_all_log_Wjk_den\<close> advances by two and reads \<open>*rec_iter\<close> and
  \<open>*(rec_iter + 1)\<close>: with one element left, the second read is past the end.
\<close>

fun compute_all_log_Wjk_den ::
  "('w \<Rightarrow> 'w \<Rightarrow> real) \<Rightarrow> 'w list \<Rightarrow> 'w list \<Rightarrow> Float list \<Rightarrow> Float list result" where
  "compute_all_log_Wjk_den P transmitted [] Q_i = Inr []"
| "compute_all_log_Wjk_den P transmitted [r] Q_i = Inl ReadPastEnd"
| "compute_all_log_Wjk_den P transmitted (r1 # r2 # rest) Q_i =
     bindr (compute_Wjk_den P transmitted r1 Q_i) (\<lambda>den1.
     bindr (compute_Wjk_den P transmitted r2 Q_i) (\<lambda>den2.
       let entry = flog (fdiv (fadd den1 den2) (Fin 2)) in
       bindr (compute_all_log_Wjk_den P transmitted rest Q_i) (\<lambda>log_Wjk_den.
         Inr (entry # entry # log_Wjk_den))))"

subsection \<open>The log-domain update\<close>

text \<open>
  The loop of \<open>compute_log_alpha_k\<close>: at each index it reads the probability and the
  log denominator (the vector of log denominators is read at every index of the row, so
  a shorter one is read past its end), skips the term when the probability is below
  \<open>1E-12\<close>, and otherwise adds \<open>P_jk * (log_Q_k + log(P_jk) - log_den)\<close>.
\<close>

fun log_alpha_loop :: "Float \<Rightarrow> Float list \<Rightarrow> Float list \<Rightarrow> Float \<Rightarrow> Float result" where
  "log_alpha_loop log_Q_k [] log_W_jk_den log_alpha = Inr log_alpha"
| "log_alpha_loop log_Q_k (P_jk # probs_row) [] log_alpha = Inl ReadPastEnd"
| "log_alpha_loop log_Q_k (P_jk # probs_row) (log_den # log_W_jk_den) log_alpha =
     log_alpha_loop log_Q_k probs_row log_W_jk_den
       (if flt P_jk (Fin (1 / 10 ^ 12)) then log_alpha
        else fadd log_alpha (fmul P_jk (fsub (fadd log_Q_k (flog P_jk)) log_den)))"

definition compute_log_alpha_k ::
  "('w \<Rightarrow> 'w \<Rightarrow> real) \<Rightarrow> 'w \<Rightarrow> 'w list \<Rightarrow> Float \<Rightarrow> Float list \<Rightarrow> Float result" where
  "compute_log_alpha_k P transmitted received Q_k log_W_jk_den =
     log_alpha_loop (flog Q_k) (compute_Pjk_row P transmitted received) log_W_jk_den (Fin 0)"

text \<open>\<open>compute_all_log_alpha_k\<close> reads \<open>*(Q_iter++)\<close> once for each transmitted codeword.\<close>

fun compute_all_log_alpha_k ::
  "('w \<Rightarrow> 'w \<Rightarrow> real) \<Rightarrow> 'w list \<Rightarrow> 'w list \<Rightarrow> Float list \<Rightarrow> Float list \<Rightarrow> Float list result" where
  "compute_all_log_alpha_k P [] received Q_i log_W_jk_den = Inr []"
| "compute_all_log_alpha_k P (t # transmitted) received [] log_W_jk_den = Inl ReadPastEnd"
| "compute_all_log_alpha_k P (t # transmitted) received (Q_k # Q_i) log_W_jk_den =
     bindr (compute_log_alpha_k P t received Q_k log_W_jk_den) (\<lambda>log_alpha.
     bindr (compute_all_log_alpha_k P transmitted received Q_i log_W_jk_den) (\<lambda>log_alphas.
       Inr (log_alpha # log_alphas)))"

subsection \<open>The full step\<close>

text \<open>
  \<open>std::max_element\<close> keeps the first element and replaces it whenever it is less than
  the next one; on an empty range it returns \<open>end()\<close>, which the source dereferences.
\<close>

fun max_element :: "Float list \<Rightarrow> Float result" where
  "max_element [] = Inl ReadPastEnd"
| "max_element (x # xs) = Inr (foldl (\<lambda>largest y. if flt largest y then y else largest) x xs)"

text \<open>\<open>std::accumulate\<close> adds the elements to \<open>init\<close> from left to right.\<close>

definition accumulate :: "Float list \<Rightarrow> Float \<Rightarrow> Float" where
  "accumulate xs init = foldl fadd init xs"

text \<open>Lines 17 to 20: align the alphas by their maximum and exponentiate.\<close>

definition align_alphas :: "Float list \<Rightarrow> Float list result" where
  "align_alphas log_alphas =
     bindr (max_element log_alphas) (\<lambda>max_log_alpha.
       Inr (map (\<lambda>log_alpha. fexp (fsub log_alpha max_log_alpha)) log_alphas))"

text \<open>Lines 22 to 24: divide the alphas by their sum. There is no test of the sum.\<close>

definition normalize_alphas :: "Float list \<Rightarrow> Float list" where
  "normalize_alphas alphas =
     (let alpha_sum = accumulate alphas (Fin 0) in map (\<lambda>alpha. fdiv alpha alpha_sum) alphas)"

definition do_full_baa_step ::
  "('w \<Rightarrow> 'w \<Rightarrow> real) \<Rightarrow> 'w list \<Rightarrow> 'w list \<Rightarrow> Float list \<Rightarrow> Float list result" where
  "do_full_baa_step P transmitted received Q_i =
     bindr (compute_all_log_Wjk_den P transmitted received Q_i) (\<lambda>log_W_jk.
     bindr (compute_all_log_alpha_k P transmitted received Q_i log_W_jk) (\<lambda>log_alphas.
     bindr (align_alphas log_alphas) (\<lambda>alphas.
       Inr (normalize_alphas alphas))))"

subsection \<open>The rate, row by row\<close>

text \<open>
  The inner loop of \<open>compute_bit_rate_efficient\<close> reads the log denominator and the
  probability, takes the log of the probability, and only then tests the probability
  against \<open>1E-20\<close>; a skipped term leaves the rate as it is.
\<close>

fun rate_row_efficient :: "Float \<Rightarrow> Float list \<Rightarrow> Float list \<Rightarrow> Float \<Rightarrow> Float result" where
  "rate_row_efficient Qk [] log_W_jk_den rate = Inr rate"
| "rate_row_efficient Qk (P_jk # probs_row) [] rate = Inl ReadPastEnd"
| "rate_row_efficient Qk (P_jk # probs_row) (log_den # log_W_jk_den) rate =
     (let log_P_jk = flog P_jk in
      rate_row_efficient Qk probs_row log_W_jk_den
        (if flt P_jk (Fin (1 / 10 ^ 20)) then rate
         else fadd rate (fmul (fmul Qk P_jk) (fsub log_P_jk log_den))))"

fun rate_loop_efficient ::
  "('w \<Rightarrow> 'w \<Rightarrow> real) \<Rightarrow> 'w list \<Rightarrow> 'w list \<Rightarrow> Float list \<Rightarrow> Float list \<Rightarrow> Float \<Rightarrow> Float result" where
  "rate_loop_efficient P [] received log_W_jk_den Q_i rate = Inr rate"
| "rate_loop_efficient P (t # transmitted) received log_W_jk_den [] rate = Inl ReadPastEnd"
| "rate_loop_efficient P (t # transmitted) received log_W_jk_den (Qk # Q_i) rate =
     bindr (rate_row_efficient Qk (compute_Pjk_row P t received) log_W_jk_den rate) (\<lambda>rate'.
       rate_loop_efficient P transmitted received log_W_jk_den Q_i rate')"

definition compute_bit_rate_efficient ::
  "('w \<Rightarrow> 'w \<Rightarrow> real) \<Rightarrow> 'w list \<Rightarrow> 'w list \<Rightarrow> Float list \<Rightarrow> Float list \<Rightarrow> Float result" where
  "compute_bit_rate_efficient P transmitted received log_W_jk_den Q_i =
     (if length transmitted \<noteq> length Q_i then Inl AssertFailed
      else rate_loop_efficient P transmitted received log_W_jk_den Q_i (Fin 0))"

subsection \<open>The rate, from the full table\<close>

text \<open>
  \<open>compute_rate\<close> fills the table, sums each column against \<open>Q_i\<close> into
  \<open>denominator[j]\<close>, and then walks the table once more. In that walk an entry below
  \<open>1E-30\<close> is skipped; otherwise the denominator of the column is overwritten by
  \<open>1E-50\<close> when it is NaN or below \<open>1E-50\<close>, and the term is added. The vector of
  denominators is state of the loop.
\<close>

definition read_at :: "Float list \<Rightarrow> nat \<Rightarrow> Float result" where
  "read_at xs i = (if i < length xs then Inr (xs ! i) else Inl ReadPastEnd)"

fun denominator_col :: "Float list list \<Rightarrow> nat \<Rightarrow> Float list \<Rightarrow> Float \<Rightarrow> Float result" where
  "denominator_col [] j Q_i den = Inr den"
| "denominator_col (row # prob_table) j [] den = Inl ReadPastEnd"
| "denominator_col (row # prob_table) j (Q_k # Q_i) den =
     denominator_col prob_table j Q_i (fadd den (fmul (row ! j) Q_k))"

fun denominators :: "Float list list \<Rightarrow> Float list \<Rightarrow> nat list \<Rightarrow> Float list result" where
  "denominators prob_table Q_i [] = Inr []"
| "denominators prob_table Q_i (j # js) =
     bindr (denominator_col prob_table j Q_i (Fin 0)) (\<lambda>den.
     bindr (denominators prob_table Q_i js) (\<lambda>dens. Inr (den # dens)))"

definition floor_den :: "Float \<Rightarrow> Float" where
  "floor_den den = (if fisnan den \<or> flt den (Fin (1 / 10 ^ 50)) then Fin (1 / 10 ^ 50) else den)"

text \<open>
  One row of the walk. \<open>Q_i[k]\<close> is read only in a term that is not skipped, so it is
  passed as the read itself. The row and the denominators both have \<open>n_J\<close> entries.
\<close>

fun rate_row_dense ::
  "Float result \<Rightarrow> Float list \<Rightarrow> Float list \<Rightarrow> Float \<Rightarrow> (Float list \<times> Float) result" where
  "rate_row_dense Q_k [] denominator rate = Inr (denominator, rate)"
| "rate_row_dense Q_k (p # row) [] rate = Inl ReadPastEnd"
| "rate_row_dense Q_k (p # row) (den # denominator) rate =
     (if flt p (Fin (1 / 10 ^ 30))
      then bindr (rate_row_dense Q_k row denominator rate) (\<lambda>(dens, rate').
             Inr (den # dens, rate'))
      else let den' = floor_den den in
           bindr Q_k (\<lambda>q.
           bindr (rate_row_dense Q_k row denominator
                    (fadd rate (fmul (fmul q p) (flog (fdiv p den'))))) (\<lambda>(dens, rate').
             Inr (den' # dens, rate'))))"

fun rate_loop_dense ::
  "Float list list \<Rightarrow> Float list \<Rightarrow> nat \<Rightarrow> Float list \<Rightarrow> Float \<Rightarrow> Float result" where
  "rate_loop_dense [] Q_i k denominator rate = Inr rate"
| "rate_loop_dense (row # prob_table) Q_i k denominator rate =
     bindr (rate_row_dense (read_at Q_i k) row denominator rate) (\<lambda>(denominator', rate').
       rate_loop_dense prob_table Q_i (Suc k) denominator' rate')"

definition compute_rate ::
  "('w \<Rightarrow> 'w \<Rightarrow> real) \<Rightarrow> 'w list \<Rightarrow> 'w list \<Rightarrow> Float list \<Rightarrow> Float result" where
  "compute_rate P transmitted received Q_i =
     (let prob_table = map (\<lambda>t. map (\<lambda>r. Fin (P t r)) received) transmitted;
          n_J = length received
      in bindr (denominators prob_table Q_i [0..<n_J]) (\<lambda>denominator.
           rate_loop_dense prob_table Q_i 0 denominator (Fin 0)))"

subsection \<open>One codeword of every symmetric pair\<close>

text \<open>
  \<open>get_transmitted_codewords_symmetries\<close> asserts an even number of codewords and keeps
  those at the even indices.
\<close>

fun even_codewords :: "'w list \<Rightarrow> 'w list" where
  "even_codewords [] = []"
| "even_codewords [x] = [x]"
| "even_codewords (x # y # all_trans_codewords) = x # even_codewords all_trans_codewords"

definition get_transmitted_codewords_symmetries :: "'w list \<Rightarrow> 'w list result" where
  "get_transmitted_codewords_symmetries all_trans_codewords =
     (if length all_trans_codewords mod 2 \<noteq> 0 then Inl AssertFailed
      else Inr (even_codewords all_trans_codewords))"

section \<open>The formulas of the specification, closed forms, and concrete channels\<close>

text \<open>
  The marginal of a received codeword in the words of the specification:
  \<open>W_j = \<Sum>_i Q[i] * P(transmitted[i], received[j])\<close>.
\<close>

definition W_spec :: "('w \<Rightarrow> 'w \<Rightarrow> real) \<Rightarrow> 'w list \<Rightarrow> 'w \<Rightarrow> real list \<Rightarrow> real" where
  "W_spec P transmitted r Q = (\<Sum>i<length transmitted. Q ! i * P (transmitted ! i) r)"

text \<open>
  The partitioning contract belongs to the caller: it runs the function on each sub-range
  and concatenates the results in order. A run that went wrong has no result to
  concatenate.
\<close>

fun gather :: "'a list result list \<Rightarrow> 'a list result" where
  "gather [] = Inr []"
| "gather (r # rs) = bindr r (\<lambda>xs. bindr (gather rs) (\<lambda>ys. Inr (xs @ ys)))"

text \<open>
  A channel over codewords \<open>0, 1, ...\<close> in which every transmitted codeword is received as
  \<open>0\<close> with probability 3/4 and as \<open>1\<close> with probability 1/4.
\<close>

definition chanA :: "nat \<Rightarrow> nat \<Rightarrow> real" where
  "chanA t r = (if r = 0 then 3 / 4 else if r = 1 then 1 / 4 else 0)"

text \<open>
  The log-domain update in the words of the specification: the sum over the received
  codewords \<open>j\<close> of \<open>P(i,j) * (log Q_old[i] + log P(i,j) - log_W_den[j])\<close>, a term with
  \<open>P(i,j) < 1e-12\<close> counting as zero.
\<close>

definition log_alpha_term :: "Float \<Rightarrow> real \<Rightarrow> Float \<Rightarrow> Float" where
  "log_alpha_term Q_k p log_W =
     (if p < 1 / 10 ^ 12 then Fin 0
      else fmul (Fin p) (fsub (fadd (flog Q_k) (flog (Fin p))) log_W))"

definition log_alpha_spec ::
  "('w \<Rightarrow> 'w \<Rightarrow> real) \<Rightarrow> 'w \<Rightarrow> 'w list \<Rightarrow> Float \<Rightarrow> Float list \<Rightarrow> Float" where
  "log_alpha_spec P t received Q_k log_W_den =
     accumulate (map (\<lambda>j. log_alpha_term Q_k (P t (received ! j)) (log_W_den ! j))
                     [0..<length received]) (Fin 0)"

text \<open>
  The terms of the two rate computations. The specification has
  \<open>Q[i] * P(i,j) * (log P(i,j) - log_W_j)\<close>, a term whose \<open>P(i,j)\<close> is below the
  threshold of its form counting as zero; the dense form of the source takes the log of
  the quotient by the floored denominator instead of the difference of the logs.
\<close>

definition rate_term :: "Float \<Rightarrow> real \<Rightarrow> Float \<Rightarrow> Float" where
  "rate_term Q_k p log_W =
     (if p < 1 / 10 ^ 20 then Fin 0
      else fmul (fmul Q_k (Fin p)) (fsub (flog (Fin p)) log_W))"

definition dense_term :: "Float \<Rightarrow> real \<Rightarrow> Float \<Rightarrow> Float" where
  "dense_term Q_k p W =
     (if p < 1 / 10 ^ 30 then Fin 0
      else fmul (fmul Q_k (Fin p)) (flog (fdiv (Fin p) (floor_den W))))"

text \<open>The sum over all pairs, rows outermost, in the order of the loops.\<close>

definition double_sum :: "(nat \<Rightarrow> nat \<Rightarrow> Float) \<Rightarrow> nat \<Rightarrow> nat \<Rightarrow> Float" where
  "double_sum f n_I n_J =
     accumulate (concat (map (\<lambda>i. map (\<lambda>j. f i j) [0..<n_J]) [0..<n_I])) (Fin 0)"

text \<open>The marginal of the specification, in the arithmetic of the source.\<close>

definition W_float :: "('w \<Rightarrow> 'w \<Rightarrow> real) \<Rightarrow> 'w list \<Rightarrow> 'w \<Rightarrow> Float list \<Rightarrow> Float" where
  "W_float P transmitted r Q =
     accumulate (map (\<lambda>i. fmul (Fin (P (transmitted ! i) r)) (Q ! i)) [0..<length transmitted]) (Fin 0)"

text \<open>The floor and the dense rate on finite numbers.\<close>

definition floor_real :: "real \<Rightarrow> real" where
  "floor_real w = (if w < 1 / 10 ^ 50 then 1 / 10 ^ 50 else w)"

definition dense_rate_real :: "('w \<Rightarrow> 'w \<Rightarrow> real) \<Rightarrow> 'w list \<Rightarrow> 'w list \<Rightarrow> real list \<Rightarrow> real" where
  "dense_rate_real P transmitted received Q =
     (\<Sum>i<length transmitted. \<Sum>j<length received.
        (let p = P (transmitted ! i) (received ! j) in
         if p < 1 / 10 ^ 30 then 0
         else Q ! i * p * ln (p / floor_real (W_spec P transmitted (received ! j) Q))))"

text \<open>
  \<open>chanB\<close>: the transmitted codeword 0 is always received as 0; any other one is received
  as 0 or as 1 with probability 1/2 each. \<open>chanC\<close>: the transmitted codeword \<open>t\<close> is
  received as \<open>2t\<close> or as \<open>2t + 1\<close> with probability 1/2 each.
\<close>

definition chanB :: "nat \<Rightarrow> nat \<Rightarrow> real" where
  "chanB t r = (if t = 0 then (if r = 0 then 1 else 0) else (if r \<le> 1 then 1 / 2 else 0))"

definition chanC :: "nat \<Rightarrow> nat \<Rightarrow> real" where
  "chanC t r = (if r = 2 * t \<or> r = 2 * t + 1 then 1 / 2 else 0)"

text \<open>The denominator of a column after the walk has passed an entry \<open>p\<close> of it.\<close>

definition den_after :: "real \<Rightarrow> Float \<Rightarrow> Float" where
  "den_after p den = (if p < 1 / 10 ^ 30 then den else floor_den den)"

section \<open>Notions used in the proofs\<close>


fun expo :: "Float \<Rightarrow> real" where
  "expo (Fin x) = exp x"
| "expo a = 0"

fun is_low :: "Float \<Rightarrow> bool" where
  "is_low (Fin x) = True"
| "is_low MInf = True"
| "is_low a = False"

text \<open>The term \<open>p * ln (p / w)\<close> of the mutual information, 0 at \<open>p = 0\<close>.\<close>

definition kl_term :: "real \<Rightarrow> real \<Rightarrow> real" where
  "kl_term p w = (if p = 0 then 0 else p * ln (p / w))"

text \<open>
  The divergence of the row of a transmitted codeword from the marginals under \<open>Q\<close>; the
  mutual information is its mean under \<open>Q\<close>.
\<close>

definition divergence :: "('w \<Rightarrow> 'w \<Rightarrow> real) \<Rightarrow> 'w list \<Rightarrow> 'w list \<Rightarrow> real list \<Rightarrow> 'w \<Rightarrow> real" where
  "divergence P transmitted received qs t =
     (\<Sum>j<length received. kl_term (P t (received ! j)) (W_spec P transmitted (received ! j) qs))"

text \<open>\<open>chanD\<close>: the noiseless channel, every codeword is received as itself.\<close>

definition chanD :: "nat \<Rightarrow> nat \<Rightarrow> real" where
  "chanD t r = (if r = t then 1 else 0)"

section \<open>Basic facts\<close>

lemma bindr_Inr [simp]: "bindr (Inr x) f = f x"
  by (simp add: bindr_def)

lemma bindr_Inl [simp]: "bindr (Inl e) f = Inl e"
  by (simp add: bindr_def)


lemma even_codewords_length: "even (length xs) \<Longrightarrow> 2 * length (even_codewords xs) = length xs"
  by (induction xs rule: even_codewords.induct) auto

lemma get_transmitted_codewords_symmetries_half:
  "get_transmitted_codewords_symmetries xs = Inr ys \<Longrightarrow> 2 * length ys = length xs"
  by (auto simp: get_transmitted_codewords_symmetries_def even_codewords_length split: if_splits)

section \<open>The denominators\<close>

lemma inner_product_Fin:
  "length xs \<le> length ys \<Longrightarrow>
   inner_product (map Fin xs) (map Fin ys) (Fin a) =
     Inr (Fin (a + (\<Sum>i<length xs. xs ! i * ys ! i)))"
proof (induction xs arbitrary: ys a)
  case Nil
  then show ?case by simp
next
  case (Cons x xs)
  then obtain y ys' where ys: "ys = y # ys'" by (cases ys) auto
  with Cons.prems have len: "length xs \<le> length ys'" by simp
  show ?case
    unfolding ys using Cons.IH [OF len, of "a + x * y"]
    by (simp add: sum.lessThan_Suc_shift add.assoc del: sum.lessThan_Suc)
qed

lemma inner_product_long:
  "length xs \<le> length ys \<Longrightarrow> \<exists>d. inner_product xs ys a = Inr d"
  by (induction xs ys a rule: inner_product.induct) auto

lemma inner_product_fault:
  "inner_product xs ys a = Inl e \<Longrightarrow> e = ReadPastEnd"
  by (induction xs ys a rule: inner_product.induct) auto

lemma compute_Wjk_den_Fin:
  "length transmitted \<le> length qs \<Longrightarrow>
   compute_Wjk_den P transmitted r (map Fin qs) = Inr (Fin (W_spec P transmitted r qs))"
  using inner_product_Fin [of "map (\<lambda>t. P t r) transmitted" qs 0]
  by (simp add: compute_Wjk_den_def compute_Pjk_col_def W_spec_def comp_def mult.commute)

lemma compute_Wjk_den_fault:
  "compute_Wjk_den P transmitted r Q = Inl e \<Longrightarrow> e = ReadPastEnd"
  by (simp add: compute_Wjk_den_def inner_product_fault)

lemma compute_Wjk_den_long:
  "length transmitted \<le> length Q \<Longrightarrow> \<exists>d. compute_Wjk_den P transmitted r Q = Inr d"
  by (simp add: compute_Wjk_den_def compute_Pjk_col_def inner_product_long)

lemma log_Wjk_den_odd:
  "odd (length received) \<Longrightarrow> compute_all_log_Wjk_den P t received Q = Inl ReadPastEnd"
proof (induction P t received Q rule: compute_all_log_Wjk_den.induct)
  case (3 P transmitted r1 r2 rest Q_i)
  then show ?case
    by (auto simp: bindr_def Let_def split: sum.splits dest: compute_Wjk_den_fault)
qed auto

lemma log_Wjk_den_even:
  "even (length received) \<Longrightarrow> length t \<le> length Q \<Longrightarrow>
   \<exists>res. compute_all_log_Wjk_den P t received Q = Inr res \<and> length res = length received \<and>
     (\<forall>m. 2 * m + 1 < length received \<longrightarrow> res ! (2 * m) = res ! (2 * m + 1))"
proof (induction P t received Q rule: compute_all_log_Wjk_den.induct)
  case (3 P transmitted r1 r2 rest Q_i)
  from 3(2) have ev: "even (length rest)" by simp
  obtain d1 where d1: "compute_Wjk_den P transmitted r1 Q_i = Inr d1"
    using compute_Wjk_den_long [OF 3(3)] by blast
  obtain d2 where d2: "compute_Wjk_den P transmitted r2 Q_i = Inr d2"
    using compute_Wjk_den_long [OF 3(3)] by blast
  from 3(1) [OF refl ev 3(3)]
  obtain res where res: "compute_all_log_Wjk_den P transmitted rest Q_i = Inr res"
    "length res = length rest"
    "\<forall>m. 2 * m + 1 < length rest \<longrightarrow> res ! (2 * m) = res ! (2 * m + 1)" by blast
  let ?e = "flog (fdiv (fadd d1 d2) (Fin 2))"
  have "\<forall>m. 2 * m + 1 < length (r1 # r2 # rest) \<longrightarrow>
      (?e # ?e # res) ! (2 * m) = (?e # ?e # res) ! (2 * m + 1)"
  proof (intro allI impI)
    fix m assume "2 * m + 1 < length (r1 # r2 # rest)"
    then show "(?e # ?e # res) ! (2 * m) = (?e # ?e # res) ! (2 * m + 1)"
      using res(3) by (cases m) auto
  qed
  then show ?case using d1 d2 res(1,2) by (simp add: Let_def)
qed auto

lemma log_Wjk_den_result:
  "compute_all_log_Wjk_den P t received Q = Inr res \<Longrightarrow>
   even (length received) \<and> length res = length received \<and>
     (\<forall>m. 2 * m + 1 < length received \<longrightarrow> res ! (2 * m) = res ! (2 * m + 1))"
proof (induction P t received Q arbitrary: res rule: compute_all_log_Wjk_den.induct)
  case (1 P transmitted Q_i)
  then show ?case by simp
next
  case (2 P transmitted r Q_i)
  then show ?case by simp
next
  case (3 P transmitted r1 r2 rest Q_i)
  from 3(2) obtain d1 d2 res' where d: "compute_Wjk_den P transmitted r1 Q_i = Inr d1"
    "compute_Wjk_den P transmitted r2 Q_i = Inr d2"
    and rest: "compute_all_log_Wjk_den P transmitted rest Q_i = Inr res'"
    and res: "res = flog (fdiv (fadd d1 d2) (Fin 2)) # flog (fdiv (fadd d1 d2) (Fin 2)) # res'"
    by (auto simp: bindr_def Let_def split: sum.splits)
  from 3(1) [OF refl rest] have ih: "even (length rest)" "length res' = length rest"
    "\<forall>m. 2 * m + 1 < length rest \<longrightarrow> res' ! (2 * m) = res' ! (2 * m + 1)" by auto
  have "\<forall>m. 2 * m + 1 < length (r1 # r2 # rest) \<longrightarrow> res ! (2 * m) = res ! (2 * m + 1)"
  proof (intro allI impI)
    fix m assume "2 * m + 1 < length (r1 # r2 # rest)"
    then show "res ! (2 * m) = res ! (2 * m + 1)"
      unfolding res using ih(3) by (cases m) auto
  qed
  with ih(1,2) res show ?case by simp
qed

text \<open>
  C10. \<open>compute_all_log_Wjk_den\<close> is defined only on a received sequence of even length.
  On every sequence of odd length the loop reads the element one past the last one.
  Whenever it returns, the received sequence has even length, the result has as many
  entries as there are received codewords, and the entries \<open>2m\<close> and \<open>2m + 1\<close> hold the
  same value for every pair index \<open>m\<close>. It does return on every sequence of even length
  when \<open>Q_i\<close> covers the transmitted codewords.
\<close>

theorem compute_all_log_Wjk_den_even_only:
  "(odd (length received) \<longrightarrow>
      compute_all_log_Wjk_den P transmitted received Q_i = Inl ReadPastEnd) \<and>
   (\<forall>res. compute_all_log_Wjk_den P transmitted received Q_i = Inr res \<longrightarrow>
      even (length received) \<and> length res = length received \<and>
      (\<forall>m. 2 * m + 1 < length received \<longrightarrow> res ! (2 * m) = res ! (2 * m + 1))) \<and>
   (even (length received) \<and> length transmitted \<le> length Q_i \<longrightarrow>
      (\<exists>res. compute_all_log_Wjk_den P transmitted received Q_i = Inr res))"
  using log_Wjk_den_odd [of received P transmitted Q_i]
    log_Wjk_den_even [of received transmitted Q_i P]
    log_Wjk_den_result [of P transmitted received Q_i]
  by blast

theorem compute_all_log_Wjk_den_even_only_witness:
  "compute_all_log_Wjk_den chanA [0] [0, 1, 0] [Fin 1] = Inl ReadPastEnd \<and>
   (\<exists>res. compute_all_log_Wjk_den chanA [0] [0, 1] [Fin 1] = Inr res \<and>
      length res = 2 \<and> res ! 0 = res ! 1)"
proof -
  have "compute_all_log_Wjk_den chanA [0] [0, 1, 0] [Fin 1] = Inl ReadPastEnd"
    using compute_all_log_Wjk_den_even_only [of "[0, 1, 0]" chanA "[0]" "[Fin 1]"] by simp
  moreover have "\<exists>res. compute_all_log_Wjk_den chanA [0] [0, 1] [Fin 1] = Inr res \<and>
      length res = 2 \<and> res ! 0 = res ! 1"
    using compute_all_log_Wjk_den_even_only [of "[0, 1]" chanA "[0]" "[Fin 1]"] by force
  ultimately show ?thesis by blast
qed

text \<open>
  C1, as the code has it. On a received sequence of even length, with a finite \<open>Q\<close> that
  covers the transmitted codewords, the result has one entry for each received codeword;
  the entries \<open>2m\<close> and \<open>2m + 1\<close> are both the log of the mean of the two marginals
  \<open>W_2m\<close> and \<open>W_2m+1\<close> of the pair, not the log of the codeword's own marginal.
\<close>

theorem compute_all_log_Wjk_den_pair_mean:
  assumes "even (length received)" and "length transmitted \<le> length qs"
  shows "\<exists>res. compute_all_log_Wjk_den P transmitted received (map Fin qs) = Inr res \<and>
           length res = length received \<and>
           (\<forall>m. 2 * m + 1 < length received \<longrightarrow>
              res ! (2 * m) = flog (Fin ((W_spec P transmitted (received ! (2 * m)) qs
                                        + W_spec P transmitted (received ! (2 * m + 1)) qs) / 2)) \<and>
              res ! (2 * m + 1) = res ! (2 * m))"
  using assms
proof (induction received rule: induct_list012)
  case 1
  then show ?case by simp
next
  case (2 r)
  then show ?case by simp
next
  case (3 r1 r2 rest)
  then obtain res where res: "compute_all_log_Wjk_den P transmitted rest (map Fin qs) = Inr res"
    "length res = length rest"
    "\<forall>m. 2 * m + 1 < length rest \<longrightarrow>
       res ! (2 * m) = flog (Fin ((W_spec P transmitted (rest ! (2 * m)) qs
                                 + W_spec P transmitted (rest ! (2 * m + 1)) qs) / 2)) \<and>
       res ! (2 * m + 1) = res ! (2 * m)" by auto
  let ?e = "flog (Fin ((W_spec P transmitted r1 qs + W_spec P transmitted r2 qs) / 2))"
  have run: "compute_all_log_Wjk_den P transmitted (r1 # r2 # rest) (map Fin qs) = Inr (?e # ?e # res)"
    using res(1) 3(4) by (simp add: compute_Wjk_den_Fin Let_def)
  have "\<forall>m. 2 * m + 1 < length (r1 # r2 # rest) \<longrightarrow>
      (?e # ?e # res) ! (2 * m) =
        flog (Fin ((W_spec P transmitted ((r1 # r2 # rest) ! (2 * m)) qs
                    + W_spec P transmitted ((r1 # r2 # rest) ! (2 * m + 1)) qs) / 2)) \<and>
      (?e # ?e # res) ! (2 * m + 1) = (?e # ?e # res) ! (2 * m)"
  proof (intro allI impI)
    fix m assume "2 * m + 1 < length (r1 # r2 # rest)"
    then show "(?e # ?e # res) ! (2 * m) =
        flog (Fin ((W_spec P transmitted ((r1 # r2 # rest) ! (2 * m)) qs
                    + W_spec P transmitted ((r1 # r2 # rest) ! (2 * m + 1)) qs) / 2)) \<and>
      (?e # ?e # res) ! (2 * m + 1) = (?e # ?e # res) ! (2 * m)"
      using res(3) by (cases m) auto
  qed
  with run res(2) show ?case by simp
qed

theorem compute_all_log_Wjk_den_pair_mean_witness:
  "\<exists>res. compute_all_log_Wjk_den chanA [0] [0, 1] (map Fin [1]) = Inr res \<and> length res = 2 \<and>
     res ! 0 = flog (Fin ((W_spec chanA [0] 0 [1] + W_spec chanA [0] 1 [1]) / 2)) \<and>
     res ! 1 = res ! 0"
  using compute_all_log_Wjk_den_pair_mean [of "[0, 1]" "[0]" "[1]" chanA] by force

text \<open>
  C1, as stated, fails: for one transmitted codeword with \<open>Q = [1]\<close> and the received pair
  \<open>[0, 1]\<close> of the channel \<open>chanA\<close>, the marginal of the received codeword \<open>0\<close> is 3/4,
  but entry 0 of the result is \<open>log (1/2)\<close>, the log of the mean of 3/4 and 1/4.
\<close>

theorem compute_all_log_Wjk_den_own_marginal_counterexample:
  "compute_all_log_Wjk_den chanA [0] [0, 1] [Fin 1] = Inr [Fin (ln (1 / 2)), Fin (ln (1 / 2))] \<and>
   compute_Wjk_den chanA [0] 0 [Fin 1] = Inr (Fin (3 / 4)) \<and>
   W_spec chanA [0] 0 [1] = 3 / 4 \<and>
   Fin (ln (1 / 2)) \<noteq> flog (Fin (3 / 4))"
  by (simp add: compute_Wjk_den_def compute_Pjk_col_def chanA_def Let_def W_spec_def)

lemma log_Wjk_den_append:
  "even (length xs) \<Longrightarrow>
   compute_all_log_Wjk_den P t (xs @ ys) Q =
     bindr (compute_all_log_Wjk_den P t xs Q) (\<lambda>a.
     bindr (compute_all_log_Wjk_den P t ys Q) (\<lambda>b. Inr (a @ b)))"
proof (induction xs rule: induct_list012)
  case 1
  show ?case by (cases "compute_all_log_Wjk_den P t ys Q") simp_all
next
  case (2 x)
  then show ?case by simp
next
  case (3 x y zs)
  then show ?case
    by (auto simp: bindr_def Let_def split: sum.splits)
qed

text \<open>
  C5, as the code has it. When every sub-range has even length, running the function on
  each sub-range (with the full transmitted sequence and the full \<open>Q_i\<close>) and
  concatenating the results in order is the same as one run on the whole sequence,
  element for element, and the two go wrong together.
\<close>

theorem compute_all_log_Wjk_den_partition:
  "\<forall>part \<in> set parts. even (length part) \<Longrightarrow>
   gather (map (\<lambda>part. compute_all_log_Wjk_den P transmitted part Q_i) parts) =
     compute_all_log_Wjk_den P transmitted (concat parts) Q_i"
proof (induction parts)
  case Nil
  show ?case by simp
next
  case (Cons part parts)
  then show ?case by (simp add: log_Wjk_den_append)
qed

theorem compute_all_log_Wjk_den_partition_witness:
  "gather [compute_all_log_Wjk_den chanA [0] [0, 1] [Fin 1],
           compute_all_log_Wjk_den chanA [0] [1, 1] [Fin 1]] =
     compute_all_log_Wjk_den chanA [0] [0, 1, 1, 1] [Fin 1] \<and>
   compute_all_log_Wjk_den chanA [0] [0, 1, 1, 1] [Fin 1] =
     Inr [Fin (ln (1 / 2)), Fin (ln (1 / 2)), Fin (ln (1 / 4)), Fin (ln (1 / 4))]"
proof -
  have "gather (map (\<lambda>part. compute_all_log_Wjk_den chanA [0] part [Fin 1]) [[0, 1], [1, 1]]) =
     compute_all_log_Wjk_den chanA [0] (concat [[0, 1], [1, 1]]) [Fin 1]"
    using compute_all_log_Wjk_den_partition [of "[[0, 1], [1, 1]]" chanA "[0]" "[Fin 1]"] by simp
  moreover have "compute_all_log_Wjk_den chanA [0] [0, 1, 1, 1] [Fin 1] =
     Inr [Fin (ln (1 / 2)), Fin (ln (1 / 2)), Fin (ln (1 / 4)), Fin (ln (1 / 4))]"
    by (simp add: compute_Wjk_den_def compute_Pjk_col_def chanA_def Let_def)
  ultimately show ?thesis by simp
qed

text \<open>
  C5, as stated, fails: the received sequence \<open>[0, 1]\<close> is the concatenation of the
  sub-ranges \<open>[0]\<close> and \<open>[1]\<close>. The run on the whole sequence returns two entries; the run
  on each sub-range reads past the end of the sub-range, so there is nothing to
  concatenate.
\<close>

theorem compute_all_log_Wjk_den_partition_counterexample:
  "compute_all_log_Wjk_den chanA [0] ([0] @ [1]) [Fin 1] =
     Inr [Fin (ln (1 / 2)), Fin (ln (1 / 2))] \<and>
   compute_all_log_Wjk_den chanA [0] [0] [Fin 1] = Inl ReadPastEnd \<and>
   compute_all_log_Wjk_den chanA [0] [1] [Fin 1] = Inl ReadPastEnd \<and>
   gather [compute_all_log_Wjk_den chanA [0] [0] [Fin 1],
           compute_all_log_Wjk_den chanA [0] [1] [Fin 1]] = Inl ReadPastEnd"
  by (simp add: compute_Wjk_den_def compute_Pjk_col_def chanA_def Let_def)

section \<open>The log-domain update as a sum of terms\<close>

lemma fadd_zero_right [simp]: "fadd a (Fin 0) = a"
  by (cases a) simp_all

lemma fadd_zero_left [simp]: "fadd (Fin 0) a = a"
  by (cases a) simp_all

lemma map_index_zip:
  "length xs \<le> length ys \<Longrightarrow>
   map (\<lambda>j. f (xs ! j) (ys ! j)) [0..<length xs] = map (\<lambda>(x, y). f x y) (zip xs ys)"
  by (rule nth_equalityI) auto

lemma log_alpha_loop_terms:
  "length ps \<le> length lds \<Longrightarrow>
   log_alpha_loop (flog Q_k) (map Fin ps) lds acc =
     Inr (foldl fadd acc (map (\<lambda>(p, ld). log_alpha_term Q_k p ld) (zip ps lds)))"
proof (induction ps arbitrary: lds acc)
  case Nil
  then show ?case by simp
next
  case (Cons p ps)
  then obtain ld lds' where lds: "lds = ld # lds'" by (cases lds) auto
  with Cons.prems have "length ps \<le> length lds'" by simp
  from Cons.IH [OF this] show ?case
    unfolding lds by (simp add: log_alpha_term_def)
qed

lemma compute_log_alpha_k_spec:
  assumes "length received \<le> length lds"
  shows "compute_log_alpha_k P t received Q_k lds = Inr (log_alpha_spec P t received Q_k lds)"
proof -
  have "map (\<lambda>j. log_alpha_term Q_k (map (P t) received ! j) (lds ! j))
            [0..<length (map (P t) received)]
      = map (\<lambda>(p, ld). log_alpha_term Q_k p ld) (zip (map (P t) received) lds)"
    using assms by (intro map_index_zip) simp
  moreover have "map (\<lambda>j. log_alpha_term Q_k (map (P t) received ! j) (lds ! j))
            [0..<length (map (P t) received)]
     = map (\<lambda>j. log_alpha_term Q_k (P t (received ! j)) (lds ! j)) [0..<length received]"
    by simp
  ultimately show ?thesis
    using log_alpha_loop_terms [of "map (P t) received" lds Q_k "Fin 0"] assms
    by (simp add: compute_log_alpha_k_def compute_Pjk_row_def log_alpha_spec_def
        accumulate_def comp_def)
qed

lemma compute_all_log_alpha_k_terms:
  "length transmitted \<le> length Q_old \<Longrightarrow> length received \<le> length log_W_den \<Longrightarrow>
   compute_all_log_alpha_k P transmitted received Q_old log_W_den =
     Inr (map (\<lambda>i. log_alpha_spec P (transmitted ! i) received (Q_old ! i) log_W_den)
              [0..<length transmitted])"
proof (induction transmitted arbitrary: Q_old)
  case Nil
  then show ?case by simp
next
  case (Cons t ts)
  then obtain q Q' where Q: "Q_old = q # Q'" by (cases Q_old) auto
  with Cons.prems have len: "length ts \<le> length Q'" by simp
  have "map (\<lambda>i. log_alpha_spec P ((t # ts) ! i) received ((q # Q') ! i) log_W_den)
            [0..<length (t # ts)]
      = log_alpha_spec P t received q log_W_den #
        map (\<lambda>i. log_alpha_spec P (ts ! i) received (Q' ! i) log_W_den) [0..<length ts]"
    by (simp add: map_upt_Suc del: upt_Suc)
  then show ?case
    unfolding Q using Cons.IH [OF len Cons.prems(2)] Cons.prems(2)
    by (simp add: compute_log_alpha_k_spec)
qed

text \<open>
  C6. With a \<open>Q_old\<close> that covers the transmitted codewords and log denominators that
  cover the received ones, the log-alpha computed for the transmitted codeword \<open>i\<close> is the
  sum over the received codewords \<open>j\<close> of
  \<open>P(i,j) * (log Q_old[i] + log P(i,j) - log_W_den[j])\<close>, in which a term with
  \<open>P(i,j) < 1e-12\<close> is zero.
\<close>

theorem compute_all_log_alpha_k_sum:
  "length transmitted \<le> length Q_old \<Longrightarrow> length received \<le> length log_W_den \<Longrightarrow>
   compute_all_log_alpha_k P transmitted received Q_old log_W_den =
     Inr (map (\<lambda>i. log_alpha_spec P (transmitted ! i) received (Q_old ! i) log_W_den)
              [0..<length transmitted])"
  by (rule compute_all_log_alpha_k_terms)

theorem compute_all_log_alpha_k_sum_witness:
  "compute_all_log_alpha_k chanA [0] [0, 1, 2] [Fin 1] [Fin 0, Fin 0, MInf] =
     Inr [Fin (3 * ln (3 / 4) / 4 + ln (1 / 4) / 4)]"
  using compute_all_log_alpha_k_sum [of "[0]" "[Fin 1]" "[0, 1, 2]" "[Fin 0, Fin 0, MInf]" chanA]
  by (simp add: log_alpha_spec_def log_alpha_term_def accumulate_def chanA_def fsub_def)

section \<open>The two rate computations as sums of terms\<close>

lemma rate_row_efficient_terms:
  "length ps \<le> length lds \<Longrightarrow>
   rate_row_efficient Qk (map Fin ps) lds rate =
     Inr (foldl fadd rate (map (\<lambda>(p, ld). rate_term Qk p ld) (zip ps lds)))"
proof (induction ps arbitrary: lds rate)
  case Nil
  then show ?case by simp
next
  case (Cons p ps)
  then obtain ld lds' where lds: "lds = ld # lds'" by (cases lds) auto
  with Cons.prems have "length ps \<le> length lds'" by simp
  from Cons.IH [OF this] show ?case
    unfolding lds by (simp add: rate_term_def Let_def)
qed

lemma rate_row_efficient_index:
  assumes "length received \<le> length lds"
  shows "rate_row_efficient Qk (compute_Pjk_row P t received) lds rate =
     Inr (foldl fadd rate (map (\<lambda>j. rate_term Qk (P t (received ! j)) (lds ! j)) [0..<length received]))"
proof -
  have "map (\<lambda>j. rate_term Qk (map (P t) received ! j) (lds ! j)) [0..<length (map (P t) received)]
      = map (\<lambda>(p, ld). rate_term Qk p ld) (zip (map (P t) received) lds)"
    using assms by (intro map_index_zip) simp
  moreover have "map (\<lambda>j. rate_term Qk (map (P t) received ! j) (lds ! j)) [0..<length (map (P t) received)]
     = map (\<lambda>j. rate_term Qk (P t (received ! j)) (lds ! j)) [0..<length received]"
    by simp
  ultimately show ?thesis
    using rate_row_efficient_terms [of "map (P t) received" lds Qk rate] assms
    by (simp add: compute_Pjk_row_def comp_def)
qed

lemma rate_loop_efficient_terms:
  "length ts \<le> length Q \<Longrightarrow> length received \<le> length lds \<Longrightarrow>
   rate_loop_efficient P ts received lds Q rate =
     Inr (foldl fadd rate (concat (map (\<lambda>i. map (\<lambda>j. rate_term (Q ! i) (P (ts ! i) (received ! j)) (lds ! j))
              [0..<length received]) [0..<length ts])))"
proof (induction ts arbitrary: Q rate)
  case Nil
  then show ?case by simp
next
  case (Cons t ts)
  then obtain q Q' where Q: "Q = q # Q'" by (cases Q) auto
  with Cons.prems have len: "length ts \<le> length Q'" by simp
  show ?case
    unfolding Q using Cons.IH [OF len Cons.prems(2)] Cons.prems(2)
    by (simp add: rate_row_efficient_index map_upt_Suc del: upt_Suc)
qed

lemma compute_bit_rate_efficient_terms:
  "length transmitted = length Q \<Longrightarrow> length received \<le> length lds \<Longrightarrow>
   compute_bit_rate_efficient P transmitted received lds Q =
     Inr (double_sum (\<lambda>i j. rate_term (Q ! i) (P (transmitted ! i) (received ! j)) (lds ! j))
            (length transmitted) (length received))"
  by (simp add: compute_bit_rate_efficient_def rate_loop_efficient_terms double_sum_def accumulate_def)


lemma denominator_col_inner_product:
  "j < length received \<Longrightarrow>
   denominator_col (map (\<lambda>t. map (\<lambda>r. Fin (P t r)) received) ts) j Q den =
     inner_product (compute_Pjk_col P ts (received ! j)) Q den"
proof (induction ts arbitrary: Q den)
  case Nil
  then show ?case by (simp add: compute_Pjk_col_def)
next
  case (Cons t ts)
  show ?case
  proof (cases Q)
    case Nil
    then show ?thesis by (simp add: compute_Pjk_col_def)
  next
    case (Cons q Q')
    then show ?thesis
      using Cons.IH [OF Cons.prems, of Q' "fadd den (fmul (Fin (P t (received ! j))) q)"] Cons.prems
      by (simp add: compute_Pjk_col_def)
  qed
qed

lemma denominators_Wjk:
  assumes "length ts \<le> length Q" and "\<forall>j \<in> set js. j < length received"
  shows "\<exists>dens. denominators (map (\<lambda>t. map (\<lambda>r. Fin (P t r)) received) ts) Q js = Inr dens \<and>
           length dens = length js \<and>
           (\<forall>n < length js. compute_Wjk_den P ts (received ! (js ! n)) Q = Inr (dens ! n))"
  using assms(2)
proof (induction js)
  case Nil
  then show ?case by simp
next
  case (Cons j js)
  then obtain dens where dens:
    "denominators (map (\<lambda>t. map (\<lambda>r. Fin (P t r)) received) ts) Q js = Inr dens"
    "length dens = length js"
    "\<forall>n < length js. compute_Wjk_den P ts (received ! (js ! n)) Q = Inr (dens ! n)" by auto
  obtain d where d: "compute_Wjk_den P ts (received ! j) Q = Inr d"
    using compute_Wjk_den_long [OF assms(1)] by blast
  from Cons.prems have j: "j < length received" by simp
  have "\<forall>n < length (j # js). compute_Wjk_den P ts (received ! ((j # js) ! n)) Q = Inr ((d # dens) ! n)"
  proof (intro allI impI)
    fix n assume "n < length (j # js)"
    then show "compute_Wjk_den P ts (received ! ((j # js) ! n)) Q = Inr ((d # dens) ! n)"
      using d dens(3) by (cases n) auto
  qed
  moreover have "denominators (map (\<lambda>t. map (\<lambda>r. Fin (P t r)) received) ts) Q (j # js) = Inr (d # dens)"
    using d dens(1) denominator_col_inner_product [OF j, of P ts Q "Fin 0"]
    by (simp add: compute_Wjk_den_def)
  ultimately show ?case using dens(2) by auto
qed

lemma floor_den_idem [simp]: "floor_den (floor_den d) = floor_den d"
  by (cases d) (auto simp: floor_den_def)

lemma dense_term_floor [simp]: "dense_term q p (floor_den d) = dense_term q p d"
  by (simp add: dense_term_def)

lemma rate_row_dense_terms:
  "length ps = length dens \<Longrightarrow>
   rate_row_dense (Inr q) (map Fin ps) dens rate =
     Inr (map (\<lambda>(p, d). den_after p d) (zip ps dens),
          foldl fadd rate (map (\<lambda>(p, d). dense_term q p d) (zip ps dens)))"
proof (induction ps arbitrary: dens rate)
  case Nil
  then show ?case by simp
next
  case (Cons p ps)
  then obtain d ds where dens: "dens = d # ds" by (cases dens) auto
  with Cons.prems have "length ps = length ds" by simp
  from Cons.IH [OF this] show ?case
    unfolding dens by (simp add: dense_term_def den_after_def Let_def)
qed

lemma rate_row_dense_empty: "rate_row_dense Qk [] dens rate = Inr (dens, rate)"
  by simp

lemma dense_terms_same_floor:
  assumes "length dens' = length dens" "map floor_den dens' = map floor_den dens"
  shows "map (\<lambda>(p, d). dense_term q p d) (zip ps dens') = map (\<lambda>(p, d). dense_term q p d) (zip ps dens)"
proof (rule nth_equalityI)
  show "length (map (\<lambda>(p, d). dense_term q p d) (zip ps dens')) = length (map (\<lambda>(p, d). dense_term q p d) (zip ps dens))"
    using assms by simp
next
  fix i assume "i < length (map (\<lambda>(p, d). dense_term q p d) (zip ps dens'))"
  then have i: "i < length ps" "i < length dens'" "i < length dens" using assms by auto
  from assms(2) i have "floor_den (dens' ! i) = floor_den (dens ! i)"
    by (metis length_map nth_map)
  then have "dense_term q (ps ! i) (dens' ! i) = dense_term q (ps ! i) (dens ! i)"
    by (metis dense_term_floor)
  with i show "map (\<lambda>(p, d). dense_term q p d) (zip ps dens') ! i = map (\<lambda>(p, d). dense_term q p d) (zip ps dens) ! i"
    by simp
qed

lemma floor_step_same_floor:
  "length ps = length dens \<Longrightarrow>
   map floor_den (map (\<lambda>(p, d). den_after p d) (zip ps dens)) = map floor_den dens"
  by (rule nth_equalityI) (auto simp: den_after_def)

lemma rate_loop_dense_terms:
  "\<forall>ps \<in> set pss. length ps = length dens \<Longrightarrow> length pss + k \<le> length Q \<Longrightarrow>
   rate_loop_dense (map (map Fin) pss) Q k dens rate =
     Inr (foldl fadd rate (concat (map (\<lambda>i. map (\<lambda>(p, d). dense_term (Q ! (k + i)) p d) (zip (pss ! i) dens))
              [0..<length pss])))"
proof (induction pss arbitrary: k dens rate)
  case Nil
  then show ?case by simp
next
  case (Cons ps pss)
  let ?dens' = "map (\<lambda>(p, d). den_after p d) (zip ps dens)"
  from Cons.prems have l: "length ps = length dens" by simp
  then have l': "length ?dens' = length dens" by simp
  have sf: "map floor_den ?dens' = map floor_den dens" using l by (rule floor_step_same_floor)
  have a: "\<forall>ps \<in> set pss. length ps = length ?dens'" using Cons.prems(1) l' by simp
  have b: "length pss + Suc k \<le> length Q" using Cons.prems(2) by simp
  have k: "k < length Q" using Cons.prems(2) by simp
  have rest: "map (\<lambda>i. map (\<lambda>(p, d). dense_term (Q ! (Suc k + i)) p d) (zip (pss ! i) ?dens')) [0..<length pss]
      = map (\<lambda>i. map (\<lambda>(p, d). dense_term (Q ! (Suc k + i)) p d) (zip (pss ! i) dens)) [0..<length pss]"
    using dense_terms_same_floor [OF l' sf] by simp
  have ih: "rate_loop_dense (map (map Fin) pss) Q (Suc k) ?dens' r =
      Inr (foldl fadd r (concat (map (\<lambda>i. map (\<lambda>(p, d). dense_term (Q ! (Suc k + i)) p d) (zip (pss ! i) dens))
              [0..<length pss])))" for r
    using Cons.IH [OF a b, of r] unfolding rest .
  show ?case
    using k l by (simp add: rate_row_dense_terms read_at_def map_upt_Suc ih del: upt_Suc)
qed


lemma inner_product_terms:
  "length xs \<le> length ys \<Longrightarrow>
   inner_product (map Fin xs) ys a = Inr (foldl fadd a (map (\<lambda>(x, y). fmul (Fin x) y) (zip xs ys)))"
proof (induction xs arbitrary: ys a)
  case Nil
  then show ?case by simp
next
  case (Cons x xs)
  then obtain y ys' where ys: "ys = y # ys'" by (cases ys) auto
  with Cons.prems have "length xs \<le> length ys'" by simp
  from Cons.IH [OF this] show ?case unfolding ys by simp
qed

lemma compute_Wjk_den_W_float:
  assumes "length transmitted \<le> length Q"
  shows "compute_Wjk_den P transmitted r Q = Inr (W_float P transmitted r Q)"
proof -
  let ?xs = "map (\<lambda>t. P t r) transmitted"
  have "map (\<lambda>i. fmul (Fin (?xs ! i)) (Q ! i)) [0..<length ?xs]
      = map (\<lambda>(x, y). fmul (Fin x) y) (zip ?xs Q)"
    using assms by (intro map_index_zip) simp
  moreover have "map (\<lambda>i. fmul (Fin (?xs ! i)) (Q ! i)) [0..<length ?xs]
      = map (\<lambda>i. fmul (Fin (P (transmitted ! i) r)) (Q ! i)) [0..<length transmitted]"
    by simp
  ultimately show ?thesis
    using inner_product_terms [of ?xs Q "Fin 0"] assms
    by (simp add: compute_Wjk_den_def compute_Pjk_col_def W_float_def accumulate_def comp_def)
qed

lemma W_float_Fin:
  "length transmitted \<le> length qs \<Longrightarrow>
   W_float P transmitted r (map Fin qs) = Fin (W_spec P transmitted r qs)"
  using compute_Wjk_den_W_float [of transmitted "map Fin qs" P r]
    compute_Wjk_den_Fin [of transmitted qs P r] by simp

lemma compute_rate_terms:
  assumes "length transmitted \<le> length Q"
  shows "compute_rate P transmitted received Q =
     Inr (double_sum (\<lambda>i j. dense_term (Q ! i) (P (transmitted ! i) (received ! j))
                               (W_float P transmitted (received ! j) Q))
            (length transmitted) (length received))"
proof -
  let ?table = "map (\<lambda>t. map (\<lambda>r. Fin (P t r)) received) transmitted"
  let ?pss = "map (\<lambda>t. map (P t) received) transmitted"
  let ?dens = "map (\<lambda>j. W_float P transmitted (received ! j) Q) [0..<length received]"
  obtain dens where dens:
    "denominators ?table Q [0..<length received] = Inr dens"
    "length dens = length [0..<length received]"
    "\<forall>n < length [0..<length received].
       compute_Wjk_den P transmitted (received ! ([0..<length received] ! n)) Q = Inr (dens ! n)"
    using denominators_Wjk [OF assms, of "[0..<length received]" received P] by auto
  have "dens = ?dens"
  proof (rule nth_equalityI)
    show "length dens = length ?dens" using dens(2) by simp
  next
    fix n assume "n < length dens"
    then have n: "n < length received" using dens(2) by simp
    with dens(3) have "compute_Wjk_den P transmitted (received ! n) Q = Inr (dens ! n)" by simp
    with compute_Wjk_den_W_float [OF assms, of P "received ! n"] n
    show "dens ! n = ?dens ! n" by simp
  qed
  with dens(1) have den: "denominators ?table Q [0..<length received] = Inr ?dens" by simp
  have tab: "?table = map (map Fin) ?pss" by simp
  have len: "\<forall>ps \<in> set ?pss. length ps = length ?dens" by simp
  have k: "length ?pss + 0 \<le> length Q" using assms by simp
  have rows: "map (\<lambda>i. map (\<lambda>(p, d). dense_term (Q ! (0 + i)) p d) (zip (?pss ! i) ?dens)) [0..<length ?pss]
      = map (\<lambda>i. map (\<lambda>j. dense_term (Q ! i) (P (transmitted ! i) (received ! j))
                               (W_float P transmitted (received ! j) Q)) [0..<length received])
            [0..<length transmitted]"
  proof (rule map_cong [OF _ nth_equalityI])
    show "[0..<length ?pss] = [0..<length transmitted]" by simp
  next
    fix i assume "i \<in> set [0..<length transmitted]"
    then show "length (map (\<lambda>(p, d). dense_term (Q ! (0 + i)) p d) (zip (?pss ! i) ?dens)) =
      length (map (\<lambda>j. dense_term (Q ! i) (P (transmitted ! i) (received ! j))
                               (W_float P transmitted (received ! j) Q)) [0..<length received])"
      by simp
  next
    fix i n assume "i \<in> set [0..<length transmitted]"
      and "n < length (map (\<lambda>(p, d). dense_term (Q ! (0 + i)) p d) (zip (?pss ! i) ?dens))"
    then show "map (\<lambda>(p, d). dense_term (Q ! (0 + i)) p d) (zip (?pss ! i) ?dens) ! n =
       map (\<lambda>j. dense_term (Q ! i) (P (transmitted ! i) (received ! j))
                               (W_float P transmitted (received ! j) Q)) [0..<length received] ! n"
      by simp
  qed
  have "compute_rate P transmitted received Q =
      bindr (denominators ?table Q [0..<length received])
        (\<lambda>den. rate_loop_dense ?table Q 0 den (Fin 0))"
    by (simp add: compute_rate_def Let_def)
  also have "\<dots> = rate_loop_dense ?table Q 0 ?dens (Fin 0)"
    by (simp only: den bindr_Inr)
  also have "\<dots> = rate_loop_dense (map (map Fin) ?pss) Q 0 ?dens (Fin 0)"
    by (simp only: tab)
  also have "\<dots> = Inr (foldl fadd (Fin 0) (concat (map (\<lambda>i. map (\<lambda>(p, d). dense_term (Q ! (0 + i)) p d)
              (zip (?pss ! i) ?dens)) [0..<length ?pss])))"
    by (rule rate_loop_dense_terms [OF len k])
  also have "\<dots> = Inr (double_sum (\<lambda>i j. dense_term (Q ! i) (P (transmitted ! i) (received ! j))
                               (W_float P transmitted (received ! j) Q))
            (length transmitted) (length received))"
    unfolding rows double_sum_def accumulate_def ..
  finally show ?thesis .
qed


lemma foldl_fadd_Fin: "foldl fadd (Fin a) (map Fin xs) = Fin (a + sum_list xs)"
  by (induction xs arbitrary: a) (simp_all add: add.assoc)

lemma double_sum_cong:
  assumes "\<And>i j. i < n \<Longrightarrow> j < m \<Longrightarrow> f i j = g i j"
  shows "double_sum f n m = double_sum g n m"
proof -
  have "map (\<lambda>i. map (\<lambda>j. f i j) [0..<m]) [0..<n] = map (\<lambda>i. map (\<lambda>j. g i j) [0..<m]) [0..<n]"
    using assms by simp
  then show ?thesis by (simp only: double_sum_def)
qed

lemma sum_list_concat_real: "sum_list (concat xss) = sum_list (map sum_list xss)" for xss :: "real list list"
  by (induction xss) simp_all

lemma double_sum_Fin:
  "double_sum (\<lambda>i j. Fin (g i j)) n m = Fin (\<Sum>i<n. \<Sum>j<m. g i j)"
proof -
  have "concat (map (\<lambda>i. map (\<lambda>j. Fin (g i j)) [0..<m]) [0..<n])
      = map Fin (concat (map (\<lambda>i. map (\<lambda>j. g i j) [0..<m]) [0..<n]))"
    by (simp add: map_concat comp_def)
  moreover have "sum_list (concat (map (\<lambda>i. map (\<lambda>j. g i j) [0..<m]) [0..<n])) = (\<Sum>i<n. \<Sum>j<m. g i j)"
    by (simp add: sum_list_concat_real comp_def interv_sum_list_conv_sum_set_nat atLeast0LessThan)
  ultimately show ?thesis
    by (simp add: double_sum_def accumulate_def foldl_fadd_Fin)
qed

lemma floor_den_Fin: "floor_den (Fin w) = Fin (floor_real w)"
  by (simp add: floor_den_def floor_real_def)

lemma floor_real_pos: "0 < floor_real w"
  by (simp add: floor_real_def not_less)

lemma dense_term_Fin:
  "dense_term (Fin q) p (Fin w) =
     Fin (if p < 1 / 10 ^ 30 then 0 else q * p * ln (p / floor_real w))"
proof (cases "p < 1 / 10 ^ 30")
  case True
  then show ?thesis by (simp add: dense_term_def)
next
  case False
  then have "0 < p" by simp
  then have "0 < p / floor_real w" using floor_real_pos [of w] by simp
  moreover have "floor_real w \<noteq> 0" using floor_real_pos [of w] by simp
  ultimately show ?thesis using False by (simp add: dense_term_def floor_den_Fin)
qed

lemma rate_term_Fin:
  "rate_term (Fin q) p (Fin d) =
     Fin (if p < 1 / 10 ^ 20 then 0 else q * p * (ln p - d))"
proof (cases "p < 1 / 10 ^ 20")
  case True
  then show ?thesis by (simp add: rate_term_def)
next
  case False
  then have "0 < p" by simp
  then show ?thesis using False by (simp add: rate_term_def fsub_def)
qed

lemma compute_rate_real:
  assumes "length transmitted \<le> length qs"
  shows "compute_rate P transmitted received (map Fin qs) =
           Inr (Fin (dense_rate_real P transmitted received qs))"
proof -
  have len: "length transmitted \<le> length (map Fin qs)" using assms by simp
  have "double_sum (\<lambda>i j. dense_term (map Fin qs ! i) (P (transmitted ! i) (received ! j))
                               (W_float P transmitted (received ! j) (map Fin qs)))
            (length transmitted) (length received)
      = double_sum (\<lambda>i j. Fin (let p = P (transmitted ! i) (received ! j) in
         if p < 1 / 10 ^ 30 then 0
         else qs ! i * p * ln (p / floor_real (W_spec P transmitted (received ! j) qs))))
            (length transmitted) (length received)"
  proof (rule double_sum_cong)
    fix i j assume "i < length transmitted" "j < length received"
    then have "map Fin qs ! i = Fin (qs ! i)" using assms by simp
    then show "dense_term (map Fin qs ! i) (P (transmitted ! i) (received ! j))
                               (W_float P transmitted (received ! j) (map Fin qs))
       = Fin (let p = P (transmitted ! i) (received ! j) in
         if p < 1 / 10 ^ 30 then 0
         else qs ! i * p * ln (p / floor_real (W_spec P transmitted (received ! j) qs)))"
      by (simp only: W_float_Fin [OF assms] dense_term_Fin Let_def)
  qed
  then show ?thesis
    by (simp only: compute_rate_terms [OF len] double_sum_Fin dense_rate_real_def)
qed


lemma log_Wjk_den_equal_pairs:
  assumes "even (length received)" and "length transmitted \<le> length qs"
    and "\<forall>m. 2 * m + 1 < length received \<longrightarrow>
           W_spec P transmitted (received ! (2 * m)) qs = W_spec P transmitted (received ! (2 * m + 1)) qs"
  shows "compute_all_log_Wjk_den P transmitted received (map Fin qs) =
           Inr (map (\<lambda>r. flog (Fin (W_spec P transmitted r qs))) received)"
  using assms(1,3)
proof (induction received rule: induct_list012)
  case 1
  then show ?case by simp
next
  case (2 r)
  then show ?case by simp
next
  case (3 r1 r2 rest)
  from 3(4) have eq: "W_spec P transmitted r1 qs = W_spec P transmitted r2 qs"
    by (auto dest: spec [of _ 0])
  have "\<forall>m. 2 * m + 1 < length rest \<longrightarrow>
           W_spec P transmitted (rest ! (2 * m)) qs = W_spec P transmitted (rest ! (2 * m + 1)) qs"
  proof (intro allI impI)
    fix m assume "2 * m + 1 < length rest"
    then show "W_spec P transmitted (rest ! (2 * m)) qs = W_spec P transmitted (rest ! (2 * m + 1)) qs"
      using 3(4) by (auto dest: spec [of _ "Suc m"])
  qed
  with 3 have "compute_all_log_Wjk_den P transmitted rest (map Fin qs) =
           Inr (map (\<lambda>r. flog (Fin (W_spec P transmitted r qs))) rest)" by simp
  then show ?case
    using eq assms(2) by (simp add: compute_Wjk_den_Fin Let_def)
qed

lemma terms_agree:
  assumes "1 / 10 ^ 50 \<le> w" and "p < 1 / 10 ^ 30 \<or> 1 / 10 ^ 20 \<le> p"
  shows "rate_term (Fin q) p (flog (Fin w)) = dense_term (Fin q) p (Fin w)"
proof -
  have w: "0 < w" using assms(1) by simp
  have fw: "floor_real w = w" using assms(1) by (simp add: floor_real_def)
  show ?thesis
  proof (cases "p < 1 / 10 ^ 30")
    case True
    then have "p < 1 / 10 ^ 20" by simp
    with True show ?thesis by (simp add: rate_term_def dense_term_def)
  next
    case False
    with assms(2) have p20: "\<not> p < 1 / 10 ^ 20" by simp
    then have p: "0 < p" by simp
    from p w have "ln (p / w) = ln p - ln w" by (simp add: ln_div)
    with w False p20 show ?thesis
      by (simp only: rate_term_Fin dense_term_Fin fw flog.simps if_True if_False)
  qed
qed


text \<open>
  C2, as the code has it. The two forms return the same value when the received sequence
  has even length, the two marginals of every pair of received codewords are equal (so
  that the mean taken by \<open>compute_all_log_Wjk_den\<close> is the marginal itself), no marginal
  is below the floor \<open>1e-50\<close> of the dense form, and no probability lies between the two
  thresholds \<open>1e-30\<close> and \<open>1e-20\<close>. Equality is exact here, finite numbers being exact.
\<close>

theorem rate_forms_agree:
  assumes "even (length received)" and "length qs = length transmitted"
    and "\<forall>m. 2 * m + 1 < length received \<longrightarrow>
           W_spec P transmitted (received ! (2 * m)) qs = W_spec P transmitted (received ! (2 * m + 1)) qs"
    and "\<forall>r \<in> set received. 1 / 10 ^ 50 \<le> W_spec P transmitted r qs"
    and "\<forall>t \<in> set transmitted. \<forall>r \<in> set received. P t r < 1 / 10 ^ 30 \<or> 1 / 10 ^ 20 \<le> P t r"
  shows "\<exists>log_W. compute_all_log_Wjk_den P transmitted received (map Fin qs) = Inr log_W \<and>
           compute_bit_rate_efficient P transmitted received log_W (map Fin qs) =
             compute_rate P transmitted received (map Fin qs) \<and>
           compute_rate P transmitted received (map Fin qs) =
             Inr (Fin (dense_rate_real P transmitted received qs))"
proof -
  let ?log_W = "map (\<lambda>r. flog (Fin (W_spec P transmitted r qs))) received"
  have len: "length transmitted \<le> length qs" using assms(2) by simp
  have den: "compute_all_log_Wjk_den P transmitted received (map Fin qs) = Inr ?log_W"
    using log_Wjk_den_equal_pairs [OF assms(1) len assms(3)] .
  have eff: "compute_bit_rate_efficient P transmitted received ?log_W (map Fin qs) =
      Inr (double_sum (\<lambda>i j. rate_term (map Fin qs ! i) (P (transmitted ! i) (received ! j)) (?log_W ! j))
            (length transmitted) (length received))"
    using assms(2) by (intro compute_bit_rate_efficient_terms) simp_all
  have dense: "compute_rate P transmitted received (map Fin qs) =
     Inr (double_sum (\<lambda>i j. dense_term (map Fin qs ! i) (P (transmitted ! i) (received ! j))
                               (W_float P transmitted (received ! j) (map Fin qs)))
            (length transmitted) (length received))"
    using len by (intro compute_rate_terms) simp
  have "double_sum (\<lambda>i j. rate_term (map Fin qs ! i) (P (transmitted ! i) (received ! j)) (?log_W ! j))
            (length transmitted) (length received)
      = double_sum (\<lambda>i j. dense_term (map Fin qs ! i) (P (transmitted ! i) (received ! j))
                               (W_float P transmitted (received ! j) (map Fin qs)))
            (length transmitted) (length received)"
  proof (rule double_sum_cong)
    fix i j assume i: "i < length transmitted" and j: "j < length received"
    from i assms(2) have q: "map Fin qs ! i = Fin (qs ! i)" by simp
    from j have l: "?log_W ! j = flog (Fin (W_spec P transmitted (received ! j) qs))" by simp
    from j assms(4) have w: "1 / 10 ^ 50 \<le> W_spec P transmitted (received ! j) qs" by simp
    from i j assms(5) have p: "P (transmitted ! i) (received ! j) < 1 / 10 ^ 30 \<or>
        1 / 10 ^ 20 \<le> P (transmitted ! i) (received ! j)" by simp
    show "rate_term (map Fin qs ! i) (P (transmitted ! i) (received ! j)) (?log_W ! j) =
      dense_term (map Fin qs ! i) (P (transmitted ! i) (received ! j))
                               (W_float P transmitted (received ! j) (map Fin qs))"
      unfolding q l W_float_Fin [OF len] using terms_agree [OF w p] .
  qed
  with eff dense have "compute_bit_rate_efficient P transmitted received ?log_W (map Fin qs) =
             compute_rate P transmitted received (map Fin qs)" by simp
  with den compute_rate_real [OF len] show ?thesis by blast
qed

lemma chanB_den: "compute_all_log_Wjk_den chanB [0, 1] [0, 1] [Fin (1 / 2), Fin (1 / 2)] = Inr [Fin (ln (1 / 2)), Fin (ln (1 / 2))]"
  by (simp add: compute_Wjk_den_def compute_Pjk_col_def chanB_def Let_def)

lemma chanB_efficient: "compute_bit_rate_efficient chanB [0, 1] [0, 1] [Fin (ln (1 / 2)), Fin (ln (1 / 2))] [Fin (1 / 2), Fin (1 / 2)] = Inr (Fin (ln 2 / 2))"
  by (simp add: compute_bit_rate_efficient_def compute_Pjk_row_def chanB_def Let_def fsub_def ln_div)

lemma chanB_dense: "compute_rate chanB [0, 1] [0, 1] [Fin (1 / 2), Fin (1 / 2)] = Inr (Fin (ln (4 / 3) / 2 + ln (2 / 3) / 4 + ln 2 / 4))"
  by (simp add: compute_rate_def Let_def read_at_def floor_den_def chanB_def)


theorem rate_forms_agree_witness:
  "\<exists>log_W. compute_all_log_Wjk_den chanC [0, 1] [0, 1, 2, 3] (map Fin [1 / 2, 1 / 2]) = Inr log_W \<and>
     compute_bit_rate_efficient chanC [0, 1] [0, 1, 2, 3] log_W (map Fin [1 / 2, 1 / 2]) =
       compute_rate chanC [0, 1] [0, 1, 2, 3] (map Fin [1 / 2, 1 / 2]) \<and>
     compute_rate chanC [0, 1] [0, 1, 2, 3] (map Fin [1 / 2, 1 / 2]) =
       Inr (Fin (dense_rate_real chanC [0, 1] [0, 1, 2, 3] [1 / 2, 1 / 2]))"
proof -
  have 1: "even (length [0, 1, 2, 3 :: nat])" by simp
  have 2: "length [1 / 2, 1 / 2 :: real] = length [0, 1 :: nat]" by simp
  have 3: "\<forall>m. 2 * m + 1 < length [0, 1, 2, 3 :: nat] \<longrightarrow>
      W_spec chanC [0, 1] ([0, 1, 2, 3] ! (2 * m)) [1 / 2, 1 / 2] =
      W_spec chanC [0, 1] ([0, 1, 2, 3] ! (2 * m + 1)) [1 / 2, 1 / 2]"
  proof (intro allI impI)
    fix m :: nat assume "2 * m + 1 < length [0, 1, 2, 3 :: nat]"
    then have "m = 0 \<or> m = 1" by auto
    then show "W_spec chanC [0, 1] ([0, 1, 2, 3] ! (2 * m)) [1 / 2, 1 / 2] =
      W_spec chanC [0, 1] ([0, 1, 2, 3] ! (2 * m + 1)) [1 / 2, 1 / 2]"
      by (auto simp: W_spec_def chanC_def)
  qed
  have 4: "\<forall>r \<in> set [0, 1, 2, 3]. 1 / 10 ^ 50 \<le> W_spec chanC [0, 1] r [1 / 2, 1 / 2]"
    by (simp add: W_spec_def chanC_def)
  have 5: "\<forall>t \<in> set [0, 1]. \<forall>r \<in> set [0, 1, 2, 3]. chanC t r < 1 / 10 ^ 30 \<or> 1 / 10 ^ 20 \<le> chanC t r"
    by (simp add: chanC_def)
  show ?thesis using rate_forms_agree [OF 1 2 3 4 5] .
qed

lemma ln_27_16: "2 / 5 < ln (27 / 16 :: real)"
proof -
  have "ln (16 / 27 :: real) \<le> 16 / 27 - 1" by (rule ln_le_minus_one) simp
  moreover have "ln (16 / 27 :: real) = - ln (27 / 16)" by (simp add: ln_div)
  ultimately show ?thesis by simp
qed

lemma chanB_gap: "ln (4 / 3) / 2 + ln (2 / 3) / 4 + ln 2 / 4 + 1 / 10 < ln 2 / (2 :: real)"
proof -
  have l4: "ln (4 :: real) = 2 * ln 2"
    using ln_realpow [of 2 2] by simp
  have l16: "ln (16 :: real) = 4 * ln 2"
    using ln_realpow [of 2 4] by simp
  have l27: "ln (27 :: real) = 3 * ln 3"
    using ln_realpow [of 3 3] by simp
  have "ln (27 / 16 :: real) = 3 * ln 3 - 4 * ln 2" by (simp add: ln_div l16 l27)
  with ln_27_16 have "2 / 5 < 3 * ln 3 - 4 * ln (2 :: real)" by simp
  moreover have "ln (4 / 3 :: real) = 2 * ln 2 - ln 3" by (simp add: ln_div l4)
  moreover have "ln (2 / 3 :: real) = ln 2 - ln 3" by (simp add: ln_div)
  ultimately show ?thesis by linarith
qed

text \<open>
  C2, as stated, fails: on the channel \<open>chanB\<close> with \<open>Q = [1/2, 1/2]\<close> the marginals of
  the received pair are 3/4 and 1/4, the row-major form (fed with the log of their mean)
  returns \<open>ln 2 / 2\<close>, and the dense form returns a value smaller by more than 1/10.
\<close>

theorem rate_forms_differ_counterexample:
  "compute_all_log_Wjk_den chanB [0, 1] [0, 1] [Fin (1 / 2), Fin (1 / 2)] =
     Inr [Fin (ln (1 / 2)), Fin (ln (1 / 2))] \<and>
   compute_bit_rate_efficient chanB [0, 1] [0, 1] [Fin (ln (1 / 2)), Fin (ln (1 / 2))]
     [Fin (1 / 2), Fin (1 / 2)] = Inr (Fin (ln 2 / 2)) \<and>
   compute_rate chanB [0, 1] [0, 1] [Fin (1 / 2), Fin (1 / 2)] =
     Inr (Fin (ln (4 / 3) / 2 + ln (2 / 3) / 4 + ln 2 / 4)) \<and>
   ln (4 / 3) / 2 + ln (2 / 3) / 4 + ln 2 / 4 + 1 / 10 < ln 2 / (2 :: real)"
  using chanB_den chanB_efficient chanB_dense chanB_gap by blast

section \<open>The full step\<close>















lemma compute_all_log_alpha_k_length:
  "compute_all_log_alpha_k P ts received Q lds = Inr las \<Longrightarrow> length las = length ts"
  by (induction P ts received Q lds arbitrary: las rule: compute_all_log_alpha_k.induct)
    (auto simp: bindr_def split: sum.splits)




lemma log_Wjk_den_finite:
  assumes "even (length received)" and "length transmitted \<le> length qs"
    and "\<forall>r \<in> set received. 0 < W_spec P transmitted r qs"
  shows "\<exists>ds. compute_all_log_Wjk_den P transmitted received (map Fin qs) = Inr (map Fin ds) \<and>
           length ds = length received"
  using assms(1,3)
proof (induction received rule: induct_list012)
  case 1
  then show ?case by simp
next
  case (2 r)
  then show ?case by simp
next
  case (3 r1 r2 rest)
  then obtain ds where ds: "compute_all_log_Wjk_den P transmitted rest (map Fin qs) = Inr (map Fin ds)"
    "length ds = length rest" by auto
  let ?w = "(W_spec P transmitted r1 qs + W_spec P transmitted r2 qs) / 2"
  from 3(4) have "0 < ?w" by simp
  then have "compute_all_log_Wjk_den P transmitted (r1 # r2 # rest) (map Fin qs) =
      Inr (map Fin (ln ?w # ln ?w # ds))"
    using ds(1) assms(2) by (simp add: compute_Wjk_den_Fin Let_def)
  with ds(2) show ?case by (metis length_Cons)
qed

lemma is_low_fadd: "is_low a \<Longrightarrow> is_low b \<Longrightarrow> is_low (fadd a b)"
  by (cases a; cases b) auto

lemma is_finite_fadd: "is_finite a \<Longrightarrow> is_finite b \<Longrightarrow> is_finite (fadd a b)"
  by (cases a; cases b) auto

lemma is_low_foldl: "is_low acc \<Longrightarrow> \<forall>x \<in> set xs. is_low x \<Longrightarrow> is_low (foldl fadd acc xs)"
  by (induction xs arbitrary: acc) (auto intro: is_low_fadd)

lemma is_finite_foldl:
  "is_finite acc \<Longrightarrow> \<forall>x \<in> set xs. is_finite x \<Longrightarrow> is_finite (foldl fadd acc xs)"
  by (induction xs arbitrary: acc) (auto intro: is_finite_fadd)

lemma is_finite_low: "is_finite a \<Longrightarrow> is_low a"
  by (cases a) auto

lemma log_alpha_term_finite: "0 < q \<Longrightarrow> is_finite (log_alpha_term (Fin q) p (Fin d))"
proof (cases "p < 1 / 10 ^ 12")
  case True
  then show ?thesis by (simp add: log_alpha_term_def)
next
  case False
  assume "0 < q"
  moreover from False have "0 < p" by simp
  ultimately show ?thesis using False by (simp add: log_alpha_term_def fsub_def)
qed

lemma log_alpha_term_low: "0 \<le> q \<Longrightarrow> is_low (log_alpha_term (Fin q) p (Fin d))"
proof (cases "q = 0")
  case True
  show ?thesis
  proof (cases "p < 1 / 10 ^ 12")
    case True
    then show ?thesis by (simp add: log_alpha_term_def)
  next
    case False
    then have "0 < p" by simp
    with False \<open>q = 0\<close> show ?thesis
      by (simp add: log_alpha_term_def fsub_def inf_of_sign_def)
  qed
next
  case False
  assume "0 \<le> q"
  with False have "0 < q" by simp
  then show ?thesis by (intro is_finite_low log_alpha_term_finite)
qed

lemma log_alpha_spec_low:
  assumes "0 \<le> q" and "length received \<le> length ds"
  shows "is_low (log_alpha_spec P t received (Fin q) (map Fin ds))"
  unfolding log_alpha_spec_def accumulate_def
proof (rule is_low_foldl)
  show "is_low (Fin 0)" by simp
  show "\<forall>x \<in> set (map (\<lambda>j. log_alpha_term (Fin q) (P t (received ! j)) (map Fin ds ! j))
          [0..<length received]). is_low x"
    using assms by (auto simp: log_alpha_term_low)
qed

lemma log_alpha_spec_finite:
  assumes "0 < q" and "length received \<le> length ds"
  shows "is_finite (log_alpha_spec P t received (Fin q) (map Fin ds))"
  unfolding log_alpha_spec_def accumulate_def
proof (rule is_finite_foldl)
  show "is_finite (Fin 0)" by simp
  show "\<forall>x \<in> set (map (\<lambda>j. log_alpha_term (Fin q) (P t (received ! j)) (map Fin ds ! j))
          [0..<length received]). is_finite x"
    using assms by (auto simp: log_alpha_term_finite)
qed

lemma foldl_max_finite:
  "is_low x \<Longrightarrow> \<forall>y \<in> set xs. is_low y \<Longrightarrow> is_finite x \<or> (\<exists>y \<in> set xs. is_finite y) \<Longrightarrow>
   is_finite (foldl (\<lambda>largest y. if flt largest y then y else largest) x xs)"
proof (induction xs arbitrary: x)
  case Nil
  then show ?case by simp
next
  case (Cons y ys)
  let ?x' = "if flt x y then y else x"
  have low: "is_low ?x'" using Cons.prems(1,2) by simp
  have "is_finite ?x' \<or> (\<exists>z \<in> set ys. is_finite z)"
    using Cons.prems by (cases x; cases y) auto
  with low Cons.prems(2) have "is_finite (foldl (\<lambda>largest y. if flt largest y then y else largest) ?x' ys)"
    by (intro Cons.IH) simp_all
  then show ?case by simp
qed

lemma max_element_finite:
  assumes "\<forall>la \<in> set las. is_low la" and "\<exists>la \<in> set las. is_finite la"
  shows "\<exists>M. max_element las = Inr (Fin M)"
proof (cases las)
  case Nil
  with assms(2) show ?thesis by simp
next
  case (Cons x xs)
  with assms have "is_finite (foldl (\<lambda>largest y. if flt largest y then y else largest) x xs)"
    by (intro foldl_max_finite) auto
  then show ?thesis unfolding Cons by (cases "foldl (\<lambda>largest y. if flt largest y then y else largest) x xs") auto
qed

lemma fexp_shift_low: "is_low la \<Longrightarrow> fexp (fsub la (Fin M)) = Fin (expo la * exp (- M))"
  by (cases la) (simp_all add: fsub_def exp_diff exp_minus divide_inverse)

lemma expo_nonneg: "0 \<le> expo a"
  by (cases a) auto

lemma expo_pos: "is_finite a \<Longrightarrow> 0 < expo a"
  by (cases a) auto

lemma sum_expo_pos:
  assumes "\<exists>la \<in> set las. is_finite la"
  shows "0 < sum_list (map expo las)"
proof -
  from assms obtain la where la: "la \<in> set las" "is_finite la" by blast
  then have "expo la \<le> sum_list (map expo las)"
    by (intro member_le_sum_list) (auto simp: expo_nonneg)
  with expo_pos [OF la(2)] show ?thesis by linarith
qed

lemma foldl_fadd_Fin_map:
  "foldl fadd (Fin a) (map (\<lambda>x. Fin (g x)) xs) = Fin (a + sum_list (map g xs))"
  using foldl_fadd_Fin [of a "map g xs"] by (simp add: comp_def)

lemma step_softmax:
  assumes "\<forall>la \<in> set las. is_low la" and "\<exists>la \<in> set las. is_finite la"
  shows "bindr (align_alphas las) (\<lambda>alphas. Inr (normalize_alphas alphas)) =
           Inr (map (\<lambda>la. Fin (expo la / sum_list (map expo las))) las)"
proof -
  obtain M where M: "max_element las = Inr (Fin M)"
    using max_element_finite [OF assms] by blast
  let ?e = "exp (- M)"
  let ?S = "sum_list (map expo las)"
  have al: "align_alphas las = Inr (map (\<lambda>la. Fin (expo la * ?e)) las)"
    using assms(1) by (simp add: align_alphas_def M fexp_shift_low)
  have S: "0 < ?S" using assms(2) by (rule sum_expo_pos)
  have acc: "accumulate (map (\<lambda>la. Fin (expo la * ?e)) las) (Fin 0) = Fin (?S * ?e)"
    by (simp add: accumulate_def foldl_fadd_Fin_map sum_list_mult_const)
  have ne: "?S * ?e \<noteq> 0" using S by simp
  have "normalize_alphas (map (\<lambda>la. Fin (expo la * ?e)) las) = map (\<lambda>la. Fin (expo la / ?S)) las"
    unfolding normalize_alphas_def Let_def acc using ne by simp
  with al show ?thesis by simp
qed


lemma positive_entry:
  assumes "\<forall>q \<in> set qs. 0 \<le> q" and "sum_list qs = (1::real)"
  shows "\<exists>i < length qs. 0 < qs ! i"
proof (rule ccontr)
  assume "\<not> (\<exists>i < length qs. 0 < qs ! i)"
  then have "\<forall>q \<in> set qs. q = 0" using assms(1) by (force simp: in_set_conv_nth)
  then have "sum_list qs = 0" by (induction qs) auto
  with assms(2) show False by simp
qed

lemma do_full_baa_step_softmax:
  assumes den: "compute_all_log_Wjk_den P transmitted received (map Fin qs) = Inr (map Fin ds)"
    and lds: "length ds = length received" and lqs: "length qs = length transmitted"
    and nonneg: "\<forall>q \<in> set qs. 0 \<le> q" and total: "sum_list qs = 1"
  shows "do_full_baa_step P transmitted received (map Fin qs) =
     Inr (map (\<lambda>la. Fin (expo la / sum_list (map expo
             (map (\<lambda>i. log_alpha_spec P (transmitted ! i) received (Fin (qs ! i)) (map Fin ds))
                [0..<length transmitted]))))
           (map (\<lambda>i. log_alpha_spec P (transmitted ! i) received (Fin (qs ! i)) (map Fin ds))
                [0..<length transmitted]))"
proof -
  let ?las = "map (\<lambda>i. log_alpha_spec P (transmitted ! i) received (Fin (qs ! i)) (map Fin ds))
                [0..<length transmitted]"
  have "compute_all_log_alpha_k P transmitted received (map Fin qs) (map Fin ds) =
      Inr (map (\<lambda>i. log_alpha_spec P (transmitted ! i) received (map Fin qs ! i) (map Fin ds))
                [0..<length transmitted])"
    using lds lqs by (intro compute_all_log_alpha_k_terms) simp_all
  moreover have "map (\<lambda>i. log_alpha_spec P (transmitted ! i) received (map Fin qs ! i) (map Fin ds))
                [0..<length transmitted] = ?las"
    using lqs by simp
  ultimately have las: "compute_all_log_alpha_k P transmitted received (map Fin qs) (map Fin ds) = Inr ?las"
    by simp
  have low: "\<forall>la \<in> set ?las. is_low la"
    using nonneg lds lqs by (auto intro!: log_alpha_spec_low)
  obtain i where i: "i < length qs" "0 < qs ! i"
    using positive_entry [OF nonneg total] by blast
  then have "is_finite (log_alpha_spec P (transmitted ! i) received (Fin (qs ! i)) (map Fin ds))"
    using lds by (intro log_alpha_spec_finite) simp_all
  moreover have "log_alpha_spec P (transmitted ! i) received (Fin (qs ! i)) (map Fin ds) \<in> set ?las"
    using i(1) lqs by auto
  ultimately have fin: "\<exists>la \<in> set ?las. is_finite la" by blast
  show ?thesis
    unfolding do_full_baa_step_def den las bindr_Inr using step_softmax [OF low fin] .
qed

text \<open>
  C3, as the code has it. For a valid \<open>Q_old\<close> (finite, no entry negative, entries
  summing to 1, one entry for each transmitted codeword) and non-degenerate inputs (a
  received sequence of even length in which every codeword has a positive marginal under
  \<open>Q_old\<close>), the step returns a finite vector with one entry for each transmitted
  codeword, no entry negative, and entries that sum to 1.
\<close>

theorem do_full_baa_step_normalized:
  assumes "even (length received)" and "length qs = length transmitted"
    and "\<forall>q \<in> set qs. 0 \<le> q" and "sum_list qs = 1"
    and "\<forall>r \<in> set received. 0 < W_spec P transmitted r qs"
  shows "\<exists>qs'. do_full_baa_step P transmitted received (map Fin qs) = Inr (map Fin qs') \<and>
           length qs' = length transmitted \<and> (\<forall>q \<in> set qs'. 0 \<le> q) \<and> sum_list qs' = 1"
proof -
  have len: "length transmitted \<le> length qs" using assms(2) by simp
  obtain ds where ds: "compute_all_log_Wjk_den P transmitted received (map Fin qs) = Inr (map Fin ds)"
    "length ds = length received"
    using log_Wjk_den_finite [OF assms(1) len assms(5)] by blast
  let ?las = "map (\<lambda>i. log_alpha_spec P (transmitted ! i) received (Fin (qs ! i)) (map Fin ds))
                [0..<length transmitted]"
  let ?S = "sum_list (map expo ?las)"
  let ?qs' = "map (\<lambda>la. expo la / ?S) ?las"
  have step: "do_full_baa_step P transmitted received (map Fin qs) = Inr (map Fin ?qs')"
    using do_full_baa_step_softmax [OF ds assms(2,3,4)] by (simp add: comp_def)
  obtain i where i: "i < length qs" "0 < qs ! i"
    using positive_entry [OF assms(3,4)] by blast
  then have "is_finite (log_alpha_spec P (transmitted ! i) received (Fin (qs ! i)) (map Fin ds))"
    using ds(2) by (intro log_alpha_spec_finite) simp_all
  moreover have "log_alpha_spec P (transmitted ! i) received (Fin (qs ! i)) (map Fin ds) \<in> set ?las"
    using i(1) assms(2) by auto
  ultimately have S: "0 < ?S" by (intro sum_expo_pos) blast
  have nn: "\<forall>q \<in> set ?qs'. 0 \<le> q" using S by (auto simp: expo_nonneg)
  have "sum_list ?qs' = ?S / ?S"
    using sum_list_mult_const [of expo "inverse ?S" ?las] by (simp add: divide_inverse comp_def)
  with S have "sum_list ?qs' = 1" by simp
  with step nn show ?thesis by (intro exI [of _ ?qs']) simp
qed

theorem do_full_baa_step_normalized_witness:
  "\<exists>qs'. do_full_baa_step chanA [0, 1] [0, 1] (map Fin [1, 0]) = Inr (map Fin qs') \<and>
     length qs' = length [0 :: nat, 1] \<and> (\<forall>q \<in> set qs'. 0 \<le> q) \<and> sum_list qs' = 1"
proof -
  have 1: "even (length [0 :: nat, 1])" by simp
  have 2: "length [1 :: real, 0] = length [0 :: nat, 1]" by simp
  have 3: "\<forall>q \<in> set [1 :: real, 0]. 0 \<le> q" by simp
  have 4: "sum_list [1 :: real, 0] = 1" by simp
  have 5: "\<forall>r \<in> set [0, 1]. 0 < W_spec chanA [0, 1] r [1, 0]"
    by (simp add: W_spec_def chanA_def)
  show ?thesis using do_full_baa_step_normalized [OF 1 2 3 4 5] .
qed

text \<open>
  C3, as stated, fails in its last clause: a result that does not sum to 1 is produced.
  \<open>Q = [1, 0]\<close> is a valid distribution and \<open>chanC\<close> a valid channel on the received
  codewords 0 to 3, but the received codewords 2 and 3 have marginal 0 under \<open>Q\<close>. The
  second log-alpha is \<open>-inf - (-inf)\<close>, a NaN, which becomes the maximum, and the step
  returns the vector of two NaNs.
\<close>

theorem do_full_baa_step_not_normalized_counterexample:
  "sum_list [1, 0 :: real] = 1 \<and>
   do_full_baa_step chanC [0, 1] [0, 1, 2, 3] (map Fin [1, 0]) = Inr [NaN, NaN] \<and>
   accumulate [NaN, NaN] (Fin 0) = NaN"
  by (simp add: do_full_baa_step_def compute_Wjk_den_def compute_Pjk_col_def
      compute_log_alpha_k_def compute_Pjk_row_def align_alphas_def normalize_alphas_def
      accumulate_def chanC_def Let_def fsub_def inf_of_sign_def)


section \<open>The rate does not decrease\<close>

lemma ln_ge_one_minus_inverse:
  assumes "0 < (x::real)"
  shows "1 - 1 / x \<le> ln x"
proof -
  have "ln (1 / x) \<le> 1 / x - 1" using assms by (intro ln_le_minus_one) simp
  moreover have "ln (1 / x) = - ln x" using assms by (simp add: ln_div)
  ultimately show ?thesis by simp
qed

lemma ba_lower:
  fixes q :: "nat \<Rightarrow> real" and D :: "nat \<Rightarrow> real"
  assumes q0: "\<forall>i<n. 0 \<le> q i" and q1: "(\<Sum>i<n. q i) = 1"
  defines "Z \<equiv> \<Sum>i<n. q i * exp (D i)"
  shows "0 < Z" and "(\<Sum>i<n. q i * D i) \<le> ln Z"
proof -
  have "\<exists>i<n. 0 < q i"
  proof (rule ccontr)
    assume "\<not> (\<exists>i<n. 0 < q i)"
    with q0 have "\<forall>i<n. q i = 0" by (metis less_eq_real_def)
    then have "(\<Sum>i<n. q i) = 0" by simp
    with q1 show False by simp
  qed
  then obtain k where k: "k < n" "0 < q k" by blast
  have "q k * exp (D k) \<le> Z" unfolding Z_def
  proof (rule member_le_sum)
    show "k \<in> {..<n}" using k by simp
    show "\<And>i. i \<in> {..<n} - {k} \<Longrightarrow> 0 \<le> q i * exp (D i)" using q0 by simp
    show "finite {..<n}" by simp
  qed
  moreover have "0 < q k * exp (D k)" using k by simp
  ultimately show Z: "0 < Z" by linarith
  have "(\<Sum>i<n. q i * (D i - ln Z)) \<le> (\<Sum>i<n. q i * (exp (D i) / Z - 1))"
  proof (rule sum_mono)
    fix i assume "i \<in> {..<n}"
    then have qi: "0 \<le> q i" using q0 by simp
    have "ln (exp (D i) / Z) \<le> exp (D i) / Z - 1" using Z by (intro ln_le_minus_one) simp
    moreover have "ln (exp (D i) / Z) = D i - ln Z" using Z by (simp add: ln_div)
    ultimately have "D i - ln Z \<le> exp (D i) / Z - 1" by simp
    with qi show "q i * (D i - ln Z) \<le> q i * (exp (D i) / Z - 1)" by (simp add: mult_left_mono)
  qed
  also have "\<dots> = (\<Sum>i<n. q i * exp (D i)) / Z - (\<Sum>i<n. q i)"
    by (simp add: right_diff_distrib sum_subtractf sum_divide_distrib)
  also have "\<dots> = 0" using Z q1 by (simp add: Z_def)
  finally have "(\<Sum>i<n. q i * (D i - ln Z)) \<le> 0" .
  moreover have "(\<Sum>i<n. q i * (D i - ln Z)) = (\<Sum>i<n. q i * D i) - ln Z * (\<Sum>i<n. q i)"
    by (simp add: right_diff_distrib sum_subtractf sum_distrib_left mult.commute)
  ultimately show "(\<Sum>i<n. q i * D i) \<le> ln Z" using q1 by simp
qed


lemma ba_upper:
  fixes q q' :: "nat \<Rightarrow> real" and p :: "nat \<Rightarrow> nat \<Rightarrow> real" and W W' D :: "nat \<Rightarrow> real"
  assumes q0: "\<forall>i<n. 0 \<le> q i"
    and p0: "\<forall>i<n. \<forall>j<m. 0 \<le> p i j" and p1: "\<forall>i<n. (\<Sum>j<m. p i j) = 1"
    and W: "\<forall>j<m. W j = (\<Sum>i<n. q i * p i j)" and Wpos: "\<forall>j<m. 0 < W j"
    and D: "\<forall>i<n. D i = (\<Sum>j<m. kl_term (p i j) (W j))"
    and Z: "0 < Z"
    and q': "\<forall>i<n. q' i = q i * exp (D i) / Z" and q'1: "(\<Sum>i<n. q' i) = 1"
    and W': "\<forall>j<m. W' j = (\<Sum>i<n. q' i * p i j)" and W'pos: "\<forall>j<m. 0 < W' j"
  shows "ln Z \<le> (\<Sum>i<n. q' i * (\<Sum>j<m. kl_term (p i j) (W' j)))"
proof -
  define T where "T i j = q' i * (kl_term (p i j) (W' j) - kl_term (p i j) (W j)
                                   + p i j * (ln (q' i) - ln (q i)))" for i j
  define D' where "D' i = (\<Sum>j<m. kl_term (p i j) (W' j))" for i
  have key: "q' i * p i j - q i * p i j * W' j / W j \<le> T i j" if i: "i < n" and j: "j < m" for i j
  proof -
    consider "q i = 0" | "p i j = 0" | "0 < q i" "0 < p i j"
      using q0 p0 i j by (metis less_eq_real_def)
    then show ?thesis
    proof cases
      case 1
      with q' i have "q' i = 0" by simp
      with 1 show ?thesis by (simp add: T_def)
    next
      case 2
      then show ?thesis by (simp add: T_def kl_term_def)
    next
      case 3
      have q'i: "0 < q' i" using q' i 3(1) Z by simp
      have w: "0 < W j" and w': "0 < W' j" using Wpos W'pos j by auto
      let ?x = "q' i * W j / (q i * W' j)"
      have x: "0 < ?x" using q'i w w' 3(1) by simp
      have kd: "kl_term (p i j) (W' j) - kl_term (p i j) (W j) = p i j * (ln (W j) - ln (W' j))"
        using 3(2) w w' by (simp add: kl_term_def ln_div algebra_simps)
      have lx: "ln ?x = ln (W j) - ln (W' j) + ln (q' i) - ln (q i)"
        using q'i w w' 3(1) by (simp add: ln_div ln_mult)
      have T: "T i j = q' i * p i j * ln ?x"
        unfolding T_def kd lx by (simp add: algebra_simps)
      have "1 - 1 / ?x \<le> ln ?x" using x by (rule ln_ge_one_minus_inverse)
      moreover have "0 \<le> q' i * p i j" using q'i 3(2) by simp
      ultimately have "q' i * p i j * (1 - 1 / ?x) \<le> q' i * p i j * ln ?x"
        by (rule mult_left_mono)
      moreover have "q' i * p i j * (1 - 1 / ?x) = q' i * p i j - q i * p i j * W' j / W j"
        using q'i w w' 3(1) by (simp add: field_simps)
      ultimately show ?thesis using T by simp
    qed
  qed
  have row: "(\<Sum>j<m. T i j) = q' i * (D' i - ln Z)" if i: "i < n" for i
  proof (cases "q i = 0")
    case True
    with q' i have "q' i = 0" by simp
    then show ?thesis by (simp add: T_def)
  next
    case False
    with q0 i have qi: "0 < q i" by (metis less_eq_real_def)
    then have q'i: "0 < q' i" using q' i Z by simp
    have "ln (q' i) = ln (q i) + D i - ln Z"
      using q' i qi Z by (simp add: ln_div ln_mult)
    then have diff: "ln (q' i) - ln (q i) = D i - ln Z" by simp
    have "(\<Sum>j<m. T i j) = q' i * ((\<Sum>j<m. kl_term (p i j) (W' j)) - (\<Sum>j<m. kl_term (p i j) (W j))
        + (\<Sum>j<m. p i j) * (ln (q' i) - ln (q i)))"
      unfolding T_def by (simp add: sum_distrib_left [symmetric] sum.distrib sum_subtractf
          sum_distrib_right [symmetric])
    also have "\<dots> = q' i * (D' i - D i + (D i - ln Z))"
      using p1 D i diff by (simp add: D'_def)
    finally show ?thesis by simp
  qed
  have "(\<Sum>i<n. q' i * D' i) - ln Z = (\<Sum>i<n. q' i * (D' i - ln Z))"
    using q'1 by (simp add: right_diff_distrib sum_subtractf sum_distrib_right [symmetric])
  also have "\<dots> = (\<Sum>i<n. \<Sum>j<m. T i j)" using row by simp
  finally have eq: "(\<Sum>i<n. q' i * D' i) - ln Z = (\<Sum>i<n. \<Sum>j<m. T i j)" .
  have "(\<Sum>i<n. \<Sum>j<m. q' i * p i j - q i * p i j * W' j / W j) \<le> (\<Sum>i<n. \<Sum>j<m. T i j)"
    by (intro sum_mono key) simp_all
  moreover have "(\<Sum>i<n. \<Sum>j<m. q' i * p i j - q i * p i j * W' j / W j) = 0"
  proof -
    have a: "(\<Sum>i<n. \<Sum>j<m. q' i * p i j) = 1"
      using p1 q'1 by (simp add: sum_distrib_left [symmetric])
    have "(\<Sum>i<n. \<Sum>j<m. q i * p i j * W' j / W j) = (\<Sum>j<m. \<Sum>i<n. q i * p i j * W' j / W j)"
      by (rule sum.swap)
    also have "\<dots> = (\<Sum>j<m. (\<Sum>i<n. q i * p i j) * (W' j / W j))"
      by (simp add: sum_distrib_right sum_divide_distrib)
    also have "\<dots> = (\<Sum>j<m. W' j)"
      using W Wpos by (intro sum.cong) auto
    also have "\<dots> = (\<Sum>j<m. \<Sum>i<n. q' i * p i j)" using W' by simp
    also have "\<dots> = (\<Sum>i<n. \<Sum>j<m. q' i * p i j)" by (rule sum.swap)
    finally have "(\<Sum>i<n. \<Sum>j<m. q i * p i j * W' j / W j) = 1" using a by simp
    with a show ?thesis by (simp add: sum_subtractf)
  qed
  ultimately have "0 \<le> (\<Sum>i<n. q' i * D' i) - ln Z" using eq by simp
  then show ?thesis by (simp add: D'_def)
qed

lemma log_alpha_term_pos:
  assumes "0 < q" and "0 < w" and "p = 0 \<or> 1 / 10 ^ 12 \<le> p"
  shows "log_alpha_term (Fin q) p (Fin (ln w)) = Fin (p * ln q + kl_term p w)"
proof (cases "p = 0")
  case True
  then show ?thesis by (simp add: log_alpha_term_def kl_term_def)
next
  case False
  with assms(3) have p: "1 / 10 ^ 12 \<le> p" by simp
  then have p0: "0 < p" by simp
  have "ln (p / w) = ln p - ln w" using p0 assms(2) by (simp add: ln_div)
  then have "kl_term p w = p * (ln p - ln w)" using False by (simp add: kl_term_def)
  then have "p * (ln q + ln p - ln w) = p * ln q + kl_term p w"
    by (simp add: algebra_simps)
  then show ?thesis using p p0 assms(1) by (simp add: log_alpha_term_def fsub_def not_less [symmetric])
qed

lemma log_alpha_term_zero:
  assumes "p = 0 \<or> 1 / 10 ^ 12 \<le> p"
  shows "log_alpha_term (Fin 0) p (Fin d) = (if p = 0 then Fin 0 else MInf)"
proof (cases "p = 0")
  case True
  then show ?thesis by (simp add: log_alpha_term_def)
next
  case False
  with assms have p: "1 / 10 ^ 12 \<le> p" by simp
  then have "0 < p" by simp
  with p False show ?thesis
    by (simp add: log_alpha_term_def fsub_def inf_of_sign_def not_less [symmetric])
qed

lemma foldl_fadd_MInf:
  "\<forall>x \<in> set xs. x = Fin 0 \<or> x = MInf \<Longrightarrow> foldl fadd MInf xs = MInf"
  by (induction xs) auto

lemma foldl_fadd_reach_MInf:
  "\<forall>x \<in> set xs. x = Fin 0 \<or> x = MInf \<Longrightarrow> MInf \<in> set xs \<Longrightarrow> foldl fadd (Fin 0) xs = MInf"
proof (induction xs)
  case Nil
  then show ?case by simp
next
  case (Cons x xs)
  then show ?case by (cases "x = MInf") (auto simp: foldl_fadd_MInf)
qed

lemma sum_list_upt: "sum_list (map g [0..<m]) = (\<Sum>j<m. g j)" for g :: "nat \<Rightarrow> real"
  by (simp add: interv_sum_list_conv_sum_set_nat atLeast0LessThan)

lemma expo_log_alpha_spec:
  assumes q: "0 \<le> q"
    and W: "\<forall>r \<in> set received. 0 < W_spec P transmitted r qs"
    and p: "\<forall>r \<in> set received. P t r = 0 \<or> 1 / 10 ^ 12 \<le> P t r"
    and row: "(\<Sum>j<length received. P t (received ! j)) = 1"
  shows "expo (log_alpha_spec P t received (Fin q)
            (map (\<lambda>r. Fin (ln (W_spec P transmitted r qs))) received)) =
         q * exp (divergence P transmitted received qs t)"
proof (cases "q = 0")
  case True
  let ?ts = "map (\<lambda>j. if P t (received ! j) = 0 then Fin 0 else MInf) [0..<length received]"
  have terms: "map (\<lambda>j. log_alpha_term (Fin 0) (P t (received ! j))
              (map (\<lambda>r. Fin (ln (W_spec P transmitted r qs))) received ! j)) [0..<length received] = ?ts"
    using p by (auto simp: log_alpha_term_zero)
  have "\<exists>j<length received. P t (received ! j) \<noteq> 0"
  proof (rule ccontr)
    assume "\<not> (\<exists>j<length received. P t (received ! j) \<noteq> 0)"
    then have "(\<Sum>j<length received. P t (received ! j)) = 0" by simp
    with row show False by simp
  qed
  then have "MInf \<in> set ?ts" by force
  moreover have "\<forall>x \<in> set ?ts. x = Fin 0 \<or> x = MInf" by auto
  ultimately have "foldl fadd (Fin 0) ?ts = MInf" by (intro foldl_fadd_reach_MInf)
  then have "log_alpha_spec P t received (Fin 0)
            (map (\<lambda>r. Fin (ln (W_spec P transmitted r qs))) received) = MInf"
    unfolding log_alpha_spec_def accumulate_def terms .
  then show ?thesis using True by simp
next
  case False
  with q have q0: "0 < q" by simp
  let ?g = "\<lambda>j. P t (received ! j) * ln q
                + kl_term (P t (received ! j)) (W_spec P transmitted (received ! j) qs)"
  have terms: "map (\<lambda>j. log_alpha_term (Fin q) (P t (received ! j))
              (map (\<lambda>r. Fin (ln (W_spec P transmitted r qs))) received ! j)) [0..<length received]
           = map (\<lambda>j. Fin (?g j)) [0..<length received]"
    using p W q0 by (auto simp: log_alpha_term_pos)
  have "(\<Sum>j<length received. ?g j) = ln q * (\<Sum>j<length received. P t (received ! j))
          + divergence P transmitted received qs t"
    by (simp add: sum.distrib sum_distrib_left divergence_def mult.commute)
  then have "(\<Sum>j<length received. ?g j) = ln q + divergence P transmitted received qs t"
    using row by simp
  then have "log_alpha_spec P t received (Fin q)
            (map (\<lambda>r. Fin (ln (W_spec P transmitted r qs))) received)
      = Fin (ln q + divergence P transmitted received qs t)"
    unfolding log_alpha_spec_def accumulate_def terms
    by (simp add: foldl_fadd_Fin_map sum_list_upt)
  then show ?thesis using q0 by (simp add: exp_add)
qed


lemma sum_list_map_nth: "sum_list (map f xs) = (\<Sum>j<length xs. f (xs ! j))" for f :: "'a \<Rightarrow> real"
  using sum_list_sum_nth [of "map f xs"] by (simp add: atLeast0LessThan)

lemma baa_step_explicit:
  assumes ev: "even (length received)" and lqs: "length qs = length transmitted"
    and nonneg: "\<forall>q \<in> set qs. 0 \<le> q" and total: "sum_list qs = 1"
    and p: "\<forall>t \<in> set transmitted. \<forall>r \<in> set received. P t r = 0 \<or> 1 / 10 ^ 12 \<le> P t r"
    and rows: "\<forall>t \<in> set transmitted. sum_list (map (P t) received) = 1"
    and pairs: "\<forall>m. 2 * m + 1 < length received \<longrightarrow>
           W_spec P transmitted (received ! (2 * m)) qs = W_spec P transmitted (received ! (2 * m + 1)) qs"
    and W: "\<forall>r \<in> set received. 0 < W_spec P transmitted r qs"
  shows "do_full_baa_step P transmitted received (map Fin qs) =
     Inr (map Fin (map (\<lambda>i. qs ! i * exp (divergence P transmitted received qs (transmitted ! i))
              / (\<Sum>k<length transmitted. qs ! k * exp (divergence P transmitted received qs (transmitted ! k))))
           [0..<length transmitted]))"
proof -
  let ?ds = "map (\<lambda>r. ln (W_spec P transmitted r qs)) received"
  let ?c = "\<lambda>i. exp (divergence P transmitted received qs (transmitted ! i))"
  let ?f = "\<lambda>i. log_alpha_spec P (transmitted ! i) received (Fin (qs ! i)) (map Fin ?ds)"
  have len: "length transmitted \<le> length qs" using lqs by simp
  have "map (\<lambda>r. flog (Fin (W_spec P transmitted r qs))) received = map Fin ?ds"
    using W by simp
  then have den: "compute_all_log_Wjk_den P transmitted received (map Fin qs) = Inr (map Fin ?ds)"
    using log_Wjk_den_equal_pairs [OF ev len pairs] by simp
  have lds: "length ?ds = length received" by simp
  have ex: "expo (?f i) = qs ! i * ?c i" if i: "i < length transmitted" for i
  proof -
    have t: "transmitted ! i \<in> set transmitted" using i by simp
    have q: "0 \<le> qs ! i" using nonneg i lqs by simp
    have pt: "\<forall>r \<in> set received. P (transmitted ! i) r = 0 \<or> 1 / 10 ^ 12 \<le> P (transmitted ! i) r"
      using p t by blast
    have row: "(\<Sum>j<length received. P (transmitted ! i) (received ! j)) = 1"
      using rows t sum_list_map_nth [of "P (transmitted ! i)" received] by simp
    have "map Fin ?ds = map (\<lambda>r. Fin (ln (W_spec P transmitted r qs))) received" by simp
    then show ?thesis using expo_log_alpha_spec [OF q W pt row] by (simp add: comp_def)
  qed
  have S: "sum_list (map expo (map ?f [0..<length transmitted])) = (\<Sum>k<length transmitted. qs ! k * ?c k)"
  proof -
    have "map expo (map ?f [0..<length transmitted]) = map (\<lambda>i. qs ! i * ?c i) [0..<length transmitted]"
      using ex by simp
    then show ?thesis by (simp only: sum_list_upt)
  qed
  have "map (\<lambda>la. Fin (expo la / sum_list (map expo (map ?f [0..<length transmitted]))))
          (map ?f [0..<length transmitted])
      = map Fin (map (\<lambda>i. qs ! i * ?c i / (\<Sum>k<length transmitted. qs ! k * ?c k)) [0..<length transmitted])"
    unfolding S using ex by simp
  then show ?thesis
    using do_full_baa_step_softmax [OF den lds lqs nonneg total] by simp
qed

lemma floor_real_ge: "w \<le> floor_real w"
  by (simp add: floor_real_def)

lemma dense_term_le_kl:
  assumes "0 \<le> q" and "0 < w" and "p = 0 \<or> 1 / 10 ^ 12 \<le> p"
  shows "(let p' = p in if p' < 1 / 10 ^ 30 then 0 else q * p' * ln (p' / floor_real w)) \<le> q * kl_term p w"
proof (cases "p = 0")
  case True
  then show ?thesis by (simp add: kl_term_def)
next
  case False
  with assms(3) have p: "1 / 10 ^ 12 \<le> p" by simp
  then have p0: "0 < p" and p30: "\<not> p < 1 / 10 ^ 30" by simp_all
  have "p / floor_real w \<le> p / w"
    using p0 assms(2) floor_real_ge [of w] by (simp add: frac_le)
  moreover have "0 < p / floor_real w" using p0 floor_real_pos [of w] by simp
  ultimately have "ln (p / floor_real w) \<le> ln (p / w)" by simp
  moreover have "0 \<le> q * p" using assms(1) p0 by simp
  ultimately have "q * p * ln (p / floor_real w) \<le> q * p * ln (p / w)" by (rule mult_left_mono)
  then show ?thesis using False p30 by (simp add: kl_term_def Let_def)
qed

lemma dense_term_eq_kl:
  assumes "1 / 10 ^ 50 \<le> w" and "p = 0 \<or> 1 / 10 ^ 12 \<le> p"
  shows "(let p' = p in if p' < 1 / 10 ^ 30 then 0 else q * p' * ln (p' / floor_real w)) = q * kl_term p w"
proof (cases "p = 0")
  case True
  then show ?thesis by (simp add: kl_term_def)
next
  case False
  with assms(2) have p: "1 / 10 ^ 12 \<le> p" by simp
  then have p30: "\<not> p < 1 / 10 ^ 30" by simp
  have "floor_real w = w" using assms(1) by (simp add: floor_real_def)
  then show ?thesis using False p30 by (simp add: kl_term_def Let_def)
qed

lemma dense_rate_le_info:
  assumes lqs: "length qs = length transmitted" and nonneg: "\<forall>q \<in> set qs. 0 \<le> q"
    and p: "\<forall>t \<in> set transmitted. \<forall>r \<in> set received. P t r = 0 \<or> 1 / 10 ^ 12 \<le> P t r"
    and W: "\<forall>r \<in> set received. 0 < W_spec P transmitted r qs"
  shows "dense_rate_real P transmitted received qs \<le>
     (\<Sum>i<length transmitted. qs ! i * divergence P transmitted received qs (transmitted ! i))"
  unfolding dense_rate_real_def divergence_def sum_distrib_left
proof (intro sum_mono)
  fix i j assume "i \<in> {..<length transmitted}" "j \<in> {..<length received}"
  then have i: "i < length transmitted" and j: "j < length received" by simp_all
  have "0 \<le> qs ! i" using nonneg i lqs by simp
  moreover have "0 < W_spec P transmitted (received ! j) qs" using W j by simp
  moreover have "P (transmitted ! i) (received ! j) = 0 \<or> 1 / 10 ^ 12 \<le> P (transmitted ! i) (received ! j)"
    using p i j by simp
  ultimately show "(let p = P (transmitted ! i) (received ! j)
          in if p < 1 / 10 ^ 30 then 0
             else qs ! i * p * ln (p / floor_real (W_spec P transmitted (received ! j) qs)))
         \<le> qs ! i * kl_term (P (transmitted ! i) (received ! j)) (W_spec P transmitted (received ! j) qs)"
    by (rule dense_term_le_kl)
qed

lemma dense_rate_eq_info:
  assumes p: "\<forall>t \<in> set transmitted. \<forall>r \<in> set received. P t r = 0 \<or> 1 / 10 ^ 12 \<le> P t r"
    and W: "\<forall>r \<in> set received. 1 / 10 ^ 50 \<le> W_spec P transmitted r qs"
  shows "dense_rate_real P transmitted received qs =
     (\<Sum>i<length transmitted. qs ! i * divergence P transmitted received qs (transmitted ! i))"
  unfolding dense_rate_real_def divergence_def sum_distrib_left
proof (intro sum.cong refl)
  fix i j assume "i \<in> {..<length transmitted}" "j \<in> {..<length received}"
  then have i: "i < length transmitted" and j: "j < length received" by simp_all
  have "1 / 10 ^ 50 \<le> W_spec P transmitted (received ! j) qs" using W j by simp
  moreover have "P (transmitted ! i) (received ! j) = 0 \<or> 1 / 10 ^ 12 \<le> P (transmitted ! i) (received ! j)"
    using p i j by simp
  ultimately show "(let p = P (transmitted ! i) (received ! j)
          in if p < 1 / 10 ^ 30 then 0
             else qs ! i * p * ln (p / floor_real (W_spec P transmitted (received ! j) qs)))
         = qs ! i * kl_term (P (transmitted ! i) (received ! j)) (W_spec P transmitted (received ! j) qs)"
    by (rule dense_term_eq_kl)
qed


lemma map_Fin_inj: "map Fin xs = map Fin ys \<Longrightarrow> xs = ys"
  by (induction xs arbitrary: ys) auto

text \<open>
  C7, as the code has it. Let the channel be valid (every probability is 0 or at least
  \<open>1e-12\<close>, and every row sums to 1 over the received sequence), let \<open>Q_old\<close> be valid
  (finite, no entry negative, sum 1, one entry for each transmitted codeword), let the
  received sequence have even length with the two marginals of every pair equal and
  every marginal positive, and let every marginal under the returned \<open>Q_new\<close> be at least
  the floor \<open>1e-50\<close> of \<open>compute_rate\<close>. Then the rate computed from \<open>Q_new\<close> is at least
  the rate computed from \<open>Q_old\<close>.
\<close>

theorem baa_step_rate_monotone:
  assumes ev: "even (length received)" and lqs: "length qs = length transmitted"
    and nonneg: "\<forall>q \<in> set qs. 0 \<le> q" and total: "sum_list qs = 1"
    and p: "\<forall>t \<in> set transmitted. \<forall>r \<in> set received. P t r = 0 \<or> 1 / 10 ^ 12 \<le> P t r"
    and rows: "\<forall>t \<in> set transmitted. sum_list (map (P t) received) = 1"
    and pairs: "\<forall>m. 2 * m + 1 < length received \<longrightarrow>
           W_spec P transmitted (received ! (2 * m)) qs = W_spec P transmitted (received ! (2 * m + 1)) qs"
    and W: "\<forall>r \<in> set received. 0 < W_spec P transmitted r qs"
    and step: "do_full_baa_step P transmitted received (map Fin qs) = Inr (map Fin qs')"
    and W': "\<forall>r \<in> set received. 1 / 10 ^ 50 \<le> W_spec P transmitted r qs'"
  shows "\<exists>rate_old rate_new.
           compute_rate P transmitted received (map Fin qs) = Inr (Fin rate_old) \<and>
           compute_rate P transmitted received (map Fin qs') = Inr (Fin rate_new) \<and>
           rate_old \<le> rate_new"
proof -
  let ?n = "length transmitted" and ?m = "length received"
  let ?D = "\<lambda>i. divergence P transmitted received qs (transmitted ! i)"
  let ?Z = "\<Sum>k<?n. qs ! k * exp (?D k)"
  let ?info = "\<lambda>Q. \<Sum>i<?n. Q ! i * divergence P transmitted received Q (transmitted ! i)"
  have "map Fin qs' = map Fin (map (\<lambda>i. qs ! i * exp (?D i) / ?Z) [0..<?n])"
    using step baa_step_explicit [OF ev lqs nonneg total p rows pairs W] by simp
  then have qs': "qs' = map (\<lambda>i. qs ! i * exp (?D i) / ?Z) [0..<?n]"
    by (rule map_Fin_inj)
  then have lqs': "length qs' = ?n" by simp
  have q0: "\<forall>i<?n. 0 \<le> qs ! i" using nonneg lqs by simp
  have q1: "(\<Sum>i<?n. qs ! i) = 1"
    using total lqs sum_list_map_nth [of "\<lambda>x. x" qs] by simp
  have Z: "0 < ?Z" and low: "(\<Sum>i<?n. qs ! i * ?D i) \<le> ln ?Z"
    using ba_lower [OF q0 q1, of ?D] by simp_all
  have q'i: "\<forall>i<?n. qs' ! i = qs ! i * exp (?D i) / ?Z" using qs' by simp
  have "(\<Sum>i<?n. qs' ! i) = (\<Sum>i<?n. qs ! i * exp (?D i) / ?Z)" using q'i by simp
  also have "\<dots> = ?Z / ?Z" by (simp only: sum_divide_distrib)
  finally have q'1: "(\<Sum>i<?n. qs' ! i) = 1" using Z by simp
  have p0: "\<forall>i<?n. \<forall>j<?m. 0 \<le> P (transmitted ! i) (received ! j)"
  proof (intro allI impI)
    fix i j assume "i < ?n" "j < ?m"
    with p have "P (transmitted ! i) (received ! j) = 0 \<or> 1 / 10 ^ 12 \<le> P (transmitted ! i) (received ! j)"
      by simp
    then show "0 \<le> P (transmitted ! i) (received ! j)" by auto
  qed
  have p1: "\<forall>i<?n. (\<Sum>j<?m. P (transmitted ! i) (received ! j)) = 1"
    using rows sum_list_map_nth [of "P _" received] by simp
  have Wd: "\<forall>j<?m. W_spec P transmitted (received ! j) qs
              = (\<Sum>i<?n. qs ! i * P (transmitted ! i) (received ! j))"
    by (simp add: W_spec_def)
  have Wp: "\<forall>j<?m. 0 < W_spec P transmitted (received ! j) qs" using W by simp
  have Dd: "\<forall>i<?n. ?D i = (\<Sum>j<?m. kl_term (P (transmitted ! i) (received ! j))
                                   (W_spec P transmitted (received ! j) qs))"
    by (simp add: divergence_def)
  have W'd: "\<forall>j<?m. W_spec P transmitted (received ! j) qs'
              = (\<Sum>i<?n. qs' ! i * P (transmitted ! i) (received ! j))"
    by (simp add: W_spec_def)
  have W'p: "\<forall>j<?m. 0 < W_spec P transmitted (received ! j) qs'"
  proof (intro allI impI)
    fix j assume "j < ?m"
    with W' have "1 / 10 ^ 50 \<le> W_spec P transmitted (received ! j) qs'" by simp
    then show "0 < W_spec P transmitted (received ! j) qs'" by simp
  qed
  have "ln ?Z \<le> (\<Sum>i<?n. qs' ! i * (\<Sum>j<?m. kl_term (P (transmitted ! i) (received ! j))
                                   (W_spec P transmitted (received ! j) qs')))"
    by (rule ba_upper [OF q0 p0 p1 Wd Wp Dd Z q'i q'1 W'd W'p])
  then have up: "ln ?Z \<le> ?info qs'" by (simp add: divergence_def)
  have old: "dense_rate_real P transmitted received qs \<le> ?info qs"
    by (rule dense_rate_le_info [OF lqs nonneg p W])
  have new: "dense_rate_real P transmitted received qs' = ?info qs'"
    by (rule dense_rate_eq_info [OF p W'])
  have "dense_rate_real P transmitted received qs \<le> dense_rate_real P transmitted received qs'"
    using old low up new by linarith
  moreover have "compute_rate P transmitted received (map Fin qs) =
      Inr (Fin (dense_rate_real P transmitted received qs))"
    using lqs by (intro compute_rate_real) simp
  moreover have "compute_rate P transmitted received (map Fin qs') =
      Inr (Fin (dense_rate_real P transmitted received qs'))"
    using lqs' by (intro compute_rate_real) simp
  ultimately show ?thesis by blast
qed

lemma ln_facts:
  "ln (1 / 2 :: real) = - ln 2" "ln (1 / 4 :: real) = - 2 * ln 2" "ln (1 / 8 :: real) = - 3 * ln 2"
  "ln (3 / 4 :: real) = ln 3 - 2 * ln 2" "ln (3 / 8 :: real) = ln 3 - 3 * ln 2"
  "ln (1 / 3 :: real) = - ln 3" "ln (1 / 6 :: real) = - ln 2 - ln 3"
proof -
  have l4: "ln (4 :: real) = 2 * ln 2" using ln_realpow [of 2 2] by simp
  have l8: "ln (8 :: real) = 3 * ln 2" using ln_realpow [of 2 3] by simp
  have l6: "ln (6 :: real) = ln 2 + ln 3" using ln_mult [of 2 3] by simp
  show "ln (1 / 2 :: real) = - ln 2" "ln (1 / 4 :: real) = - 2 * ln 2" "ln (1 / 8 :: real) = - 3 * ln 2"
    "ln (3 / 4 :: real) = ln 3 - 2 * ln 2" "ln (3 / 8 :: real) = ln 3 - 3 * ln 2"
    "ln (1 / 3 :: real) = - ln 3" "ln (1 / 6 :: real) = - ln 2 - ln 3"
    by (simp_all add: ln_div l4 l8 l6)
qed

lemma chanC_step: "do_full_baa_step chanC [0, 1] [0, 1, 2, 3] (map Fin [1 / 4, 3 / 4]) = Inr (map Fin [1 / 2, 1 / 2])"
  by (simp add: do_full_baa_step_def compute_Wjk_den_def compute_Pjk_col_def
      compute_log_alpha_k_def compute_Pjk_row_def align_alphas_def normalize_alphas_def
      accumulate_def chanC_def Let_def fsub_def ln_facts)

lemma chanD_step: "do_full_baa_step chanD [0, 1, 2] [0, 1, 2, 3] [Fin (1 / 3), Fin (1 / 3), Fin (1 / 3)]
     = Inr [Fin (1 / 4), Fin (1 / 4), Fin (1 / 2)]"
  by (simp add: do_full_baa_step_def compute_Wjk_den_def compute_Pjk_col_def
      compute_log_alpha_k_def compute_Pjk_row_def align_alphas_def normalize_alphas_def
      accumulate_def chanD_def Let_def fsub_def ln_facts exp_minus)

lemma chanD_rate_old: "compute_rate chanD [0, 1, 2] [0, 1, 2, 3] [Fin (1 / 3), Fin (1 / 3), Fin (1 / 3)] = Inr (Fin (ln 3))"
  by (simp add: compute_rate_def Let_def read_at_def floor_den_def chanD_def)

lemma ln_4: "ln (4 :: real) = 2 * ln 2"
  using ln_realpow [of 2 2] by simp

lemma chanD_rate_new: "compute_rate chanD [0, 1, 2] [0, 1, 2, 3] [Fin (1 / 4), Fin (1 / 4), Fin (1 / 2)] = Inr (Fin (3 * ln 2 / 2))"
  by (simp add: compute_rate_def Let_def read_at_def floor_den_def chanD_def ln_4)


lemma chanD_gap: "3 * ln 2 / 2 + 1 / 20 < ln (3 :: real)"
proof -
  have "ln (8 / 9 :: real) \<le> 8 / 9 - 1" by (rule ln_le_minus_one) simp
  moreover have "ln (8 :: real) = 3 * ln 2" using ln_realpow [of 2 3] by simp
  moreover have "ln (9 :: real) = 2 * ln 3" using ln_realpow [of 3 2] by simp
  moreover have "ln (8 / 9 :: real) = ln 8 - ln 9" by (simp add: ln_div)
  ultimately show ?thesis by linarith
qed

theorem baa_step_rate_monotone_witness:
  "\<exists>rate_old rate_new.
     compute_rate chanC [0, 1] [0, 1, 2, 3] (map Fin [1 / 4, 3 / 4]) = Inr (Fin rate_old) \<and>
     compute_rate chanC [0, 1] [0, 1, 2, 3] (map Fin [1 / 2, 1 / 2]) = Inr (Fin rate_new) \<and>
     rate_old \<le> rate_new"
proof -
  have 1: "even (length [0, 1, 2, 3 :: nat])" by simp
  have 2: "length [1 / 4, 3 / 4 :: real] = length [0, 1 :: nat]" by simp
  have 3: "\<forall>q \<in> set [1 / 4, 3 / 4 :: real]. 0 \<le> q" by simp
  have 4: "sum_list [1 / 4, 3 / 4 :: real] = 1" by simp
  have 5: "\<forall>t \<in> set [0, 1]. \<forall>r \<in> set [0, 1, 2, 3]. chanC t r = 0 \<or> 1 / 10 ^ 12 \<le> chanC t r"
    by (simp add: chanC_def)
  have 6: "\<forall>t \<in> set [0, 1]. sum_list (map (chanC t) [0, 1, 2, 3]) = 1"
    by (simp add: chanC_def)
  have 7: "\<forall>m. 2 * m + 1 < length [0, 1, 2, 3 :: nat] \<longrightarrow>
      W_spec chanC [0, 1] ([0, 1, 2, 3] ! (2 * m)) [1 / 4, 3 / 4] =
      W_spec chanC [0, 1] ([0, 1, 2, 3] ! (2 * m + 1)) [1 / 4, 3 / 4]"
  proof (intro allI impI)
    fix m :: nat assume "2 * m + 1 < length [0, 1, 2, 3 :: nat]"
    then have "m = 0 \<or> m = 1" by auto
    then show "W_spec chanC [0, 1] ([0, 1, 2, 3] ! (2 * m)) [1 / 4, 3 / 4] =
      W_spec chanC [0, 1] ([0, 1, 2, 3] ! (2 * m + 1)) [1 / 4, 3 / 4]"
      by (auto simp: W_spec_def chanC_def)
  qed
  have 8: "\<forall>r \<in> set [0, 1, 2, 3]. 0 < W_spec chanC [0, 1] r [1 / 4, 3 / 4]"
    by (simp add: W_spec_def chanC_def)
  have 9: "do_full_baa_step chanC [0, 1] [0, 1, 2, 3] (map Fin [1 / 4, 3 / 4]) =
      Inr (map Fin [1 / 2, 1 / 2])"
    by (rule chanC_step)
  have 10: "\<forall>r \<in> set [0, 1, 2, 3]. 1 / 10 ^ 50 \<le> W_spec chanC [0, 1] r [1 / 2, 1 / 2]"
    by (simp add: W_spec_def chanC_def)
  show ?thesis using baa_step_rate_monotone [OF 1 2 3 4 5 6 7 8 9 10] .
qed

text \<open>
  C7, as stated, fails: on the noiseless channel \<open>chanD\<close> with three transmitted
  codewords, the received sequence \<open>[0, 1, 2, 3]\<close> and the uniform \<open>Q_old\<close>, the pairs of
  received codewords have unequal marginals, the step returns \<open>[1/4, 1/4, 1/2]\<close>, and the
  rate falls from \<open>ln 3\<close> to \<open>3/2 * ln 2\<close>, by more than 1/20.
\<close>

theorem baa_step_rate_decreases_counterexample:
  "do_full_baa_step chanD [0, 1, 2] [0, 1, 2, 3] [Fin (1 / 3), Fin (1 / 3), Fin (1 / 3)]
     = Inr [Fin (1 / 4), Fin (1 / 4), Fin (1 / 2)] \<and>
   compute_rate chanD [0, 1, 2] [0, 1, 2, 3] [Fin (1 / 3), Fin (1 / 3), Fin (1 / 3)] = Inr (Fin (ln 3)) \<and>
   compute_rate chanD [0, 1, 2] [0, 1, 2, 3] [Fin (1 / 4), Fin (1 / 4), Fin (1 / 2)]
     = Inr (Fin (3 * ln 2 / 2)) \<and>
   3 * ln 2 / 2 + 1 / 20 < ln (3 :: real)"
  using chanD_step chanD_rate_old chanD_rate_new chanD_gap by blast

section \<open>Probabilities that are exactly zero\<close>

lemma double_sum_finite:
  assumes "\<And>i j. i < n \<Longrightarrow> j < m \<Longrightarrow> is_finite (f i j)"
  shows "is_finite (double_sum f n m)"
  unfolding double_sum_def accumulate_def
  using assms by (intro is_finite_foldl) auto

lemma rate_term_finite: "p < 1 / 10 ^ 20 \<or> is_finite ld \<Longrightarrow> is_finite (rate_term (Fin q) p ld)"
  by (cases ld) (auto simp: rate_term_Fin, auto simp: rate_term_def)

lemma log_alpha_term_finite':
  "0 < q \<Longrightarrow> p < 1 / 10 ^ 12 \<or> is_finite ld \<Longrightarrow> is_finite (log_alpha_term (Fin q) p ld)"
  by (cases ld) (auto simp: log_alpha_term_finite, auto simp: log_alpha_term_def)

lemma dense_term_finite: "is_finite (dense_term (Fin q) p (Fin w))"
  by (simp add: dense_term_Fin)

lemma zip_nth_mem: "j < length xs \<Longrightarrow> length xs \<le> length ys \<Longrightarrow> (xs ! j, ys ! j) \<in> set (zip xs ys)"
  by (force simp: set_zip)

text \<open>
  C8, as the code has it. Each of the three computations is the sum, in loop order, of
  one term for each pair of a transmitted and a received codeword, and the term of a pair
  whose probability is exactly 0 is the finite number 0, whatever the prior and the
  denominator are (NaN and the infinities included). The results are free of NaN and of
  the infinities under two further conditions: the priors are finite (the one of the
  alpha computation positive), and the log denominator of a received codeword is finite
  unless every codeword in question reaches it with probability 0.
\<close>

theorem zero_probability_term_skipped:
  assumes "length transmitted = length qs" and "length received \<le> length log_W" and "0 < q"
    and "\<forall>t \<in> set (t0 # transmitted). \<forall>(r, ld) \<in> set (zip received log_W). P t r = 0 \<or> is_finite ld"
  shows "log_alpha_term Q_k 0 d = Fin 0 \<and> rate_term Q_k 0 d = Fin 0 \<and> dense_term Q_k 0 d = Fin 0 \<and>
   compute_log_alpha_k P t0 received (Fin q) log_W =
     Inr (log_alpha_spec P t0 received (Fin q) log_W) \<and>
   is_finite (log_alpha_spec P t0 received (Fin q) log_W) \<and>
   compute_bit_rate_efficient P transmitted received log_W (map Fin qs) =
     Inr (double_sum (\<lambda>i j. rate_term (Fin (qs ! i)) (P (transmitted ! i) (received ! j)) (log_W ! j))
            (length transmitted) (length received)) \<and>
   is_finite (double_sum (\<lambda>i j. rate_term (Fin (qs ! i)) (P (transmitted ! i) (received ! j)) (log_W ! j))
            (length transmitted) (length received)) \<and>
   compute_rate P transmitted received (map Fin qs) =
     Inr (double_sum (\<lambda>i j. dense_term (Fin (qs ! i)) (P (transmitted ! i) (received ! j))
                               (Fin (W_spec P transmitted (received ! j) qs)))
            (length transmitted) (length received)) \<and>
   is_finite (double_sum (\<lambda>i j. dense_term (Fin (qs ! i)) (P (transmitted ! i) (received ! j))
                               (Fin (W_spec P transmitted (received ! j) qs)))
            (length transmitted) (length received))"
proof -
  have len: "length transmitted \<le> length qs" using assms(1) by simp
  have zero: "P t (received ! j) = 0 \<or> is_finite (log_W ! j)"
    if "t \<in> set (t0 # transmitted)" "j < length received" for t j
    using assms(4) that zip_nth_mem [OF that(2) assms(2)] by fastforce
  have terms: "log_alpha_term Q_k 0 d = Fin 0 \<and> rate_term Q_k 0 d = Fin 0 \<and> dense_term Q_k 0 d = Fin 0"
    by (simp add: log_alpha_term_def rate_term_def dense_term_def)
  have a1: "compute_log_alpha_k P t0 received (Fin q) log_W =
     Inr (log_alpha_spec P t0 received (Fin q) log_W)"
    by (rule compute_log_alpha_k_spec [OF assms(2)])
  have a2: "is_finite (log_alpha_spec P t0 received (Fin q) log_W)"
    unfolding log_alpha_spec_def accumulate_def
  proof (rule is_finite_foldl)
    show "is_finite (Fin 0)" by simp
    have "is_finite (log_alpha_term (Fin q) (P t0 (received ! j)) (log_W ! j))"
      if "j < length received" for j
    proof -
      have "P t0 (received ! j) = 0 \<or> is_finite (log_W ! j)" using that by (intro zero) simp_all
      then have "P t0 (received ! j) < 1 / 10 ^ 12 \<or> is_finite (log_W ! j)" by auto
      with assms(3) show ?thesis by (rule log_alpha_term_finite')
    qed
    then show "\<forall>x \<in> set (map (\<lambda>j. log_alpha_term (Fin q) (P t0 (received ! j)) (log_W ! j))
          [0..<length received]). is_finite x"
      by auto
  qed
  have e1: "compute_bit_rate_efficient P transmitted received log_W (map Fin qs) =
     Inr (double_sum (\<lambda>i j. rate_term (map Fin qs ! i) (P (transmitted ! i) (received ! j)) (log_W ! j))
            (length transmitted) (length received))"
    using assms(1,2) by (intro compute_bit_rate_efficient_terms) simp_all
  have e1': "double_sum (\<lambda>i j. rate_term (map Fin qs ! i) (P (transmitted ! i) (received ! j)) (log_W ! j))
            (length transmitted) (length received)
         = double_sum (\<lambda>i j. rate_term (Fin (qs ! i)) (P (transmitted ! i) (received ! j)) (log_W ! j))
            (length transmitted) (length received)"
    using assms(1) by (intro double_sum_cong) simp
  have e2: "is_finite (double_sum (\<lambda>i j. rate_term (Fin (qs ! i)) (P (transmitted ! i) (received ! j)) (log_W ! j))
            (length transmitted) (length received))"
  proof (rule double_sum_finite)
    fix i j assume "i < length transmitted" "j < length received"
    then have "P (transmitted ! i) (received ! j) = 0 \<or> is_finite (log_W ! j)"
      by (intro zero) simp_all
    then show "is_finite (rate_term (Fin (qs ! i)) (P (transmitted ! i) (received ! j)) (log_W ! j))"
      by (intro rate_term_finite) auto
  qed
  have d1: "compute_rate P transmitted received (map Fin qs) =
     Inr (double_sum (\<lambda>i j. dense_term (map Fin qs ! i) (P (transmitted ! i) (received ! j))
                               (W_float P transmitted (received ! j) (map Fin qs)))
            (length transmitted) (length received))"
    using len by (intro compute_rate_terms) simp
  have d1': "double_sum (\<lambda>i j. dense_term (map Fin qs ! i) (P (transmitted ! i) (received ! j))
                               (W_float P transmitted (received ! j) (map Fin qs)))
            (length transmitted) (length received)
      = double_sum (\<lambda>i j. dense_term (Fin (qs ! i)) (P (transmitted ! i) (received ! j))
                               (Fin (W_spec P transmitted (received ! j) qs)))
            (length transmitted) (length received)"
    using assms(1) by (intro double_sum_cong) (simp add: W_float_Fin [OF len])
  have d2: "is_finite (double_sum (\<lambda>i j. dense_term (Fin (qs ! i)) (P (transmitted ! i) (received ! j))
                               (Fin (W_spec P transmitted (received ! j) qs)))
            (length transmitted) (length received))"
    by (intro double_sum_finite dense_term_finite)
  show ?thesis using terms a1 a2 e1 e1' e2 d1 d1' d2 by simp
qed

theorem zero_probability_term_skipped_witness:
  "compute_log_alpha_k chanA 0 [0, 1, 2, 3] (Fin 1) [Fin 0, Fin 0, MInf, NaN] =
     Inr (Fin (3 * ln (3 / 4) / 4 + ln (1 / 4) / 4)) \<and>
   compute_bit_rate_efficient chanA [0, 1] [0, 1, 2, 3] [Fin 0, Fin 0, MInf, NaN]
     (map Fin [1 / 2, 1 / 2]) = Inr (Fin (ln (1 / 4) / 4 + 3 * ln (3 / 4) / 4)) \<and>
   compute_rate chanA [0, 1] [0, 1, 2, 3] (map Fin [1 / 2, 1 / 2]) = Inr (Fin 0)"
proof -
  have 1: "length [0, 1 :: nat] = length [1 / 2, 1 / 2 :: real]" by simp
  have 2: "length [0, 1, 2, 3 :: nat] \<le> length [Fin 0, Fin 0, MInf, NaN]" by simp
  have 3: "0 < (1 :: real)" by simp
  have 4: "\<forall>t \<in> set (0 # [0, 1]). \<forall>(r, ld) \<in> set (zip [0, 1, 2, 3] [Fin 0, Fin 0, MInf, NaN]).
      chanA t r = 0 \<or> is_finite ld"
    by (simp add: chanA_def)
  show ?thesis
    using zero_probability_term_skipped [where P = chanA and Q_k = NaN and d = NaN, OF 1 2 3 4]
    by (simp add: log_alpha_spec_def log_alpha_term_def accumulate_def double_sum_def
      rate_term_def dense_term_def W_spec_def floor_den_def chanA_def fsub_def inf_of_sign_def)
qed

text \<open>
  C8, as stated, fails: entries that are exactly 0 do not keep NaN out of the results. On
  the channel \<open>chanC\<close> the transmitted codeword 0 reaches the received codewords 2 and 3
  with probability exactly 0. With \<open>Q = [0, 1]\<close> the log denominators of the received
  codewords 0 and 1 are \<open>-inf\<close>, and the terms of the codeword 0 at these two, whose
  probability is 1/2, make the alpha computation return NaN (\<open>-inf - (-inf)\<close>) and the
  row-major rate computation return NaN (\<open>0 * inf\<close>).
\<close>

theorem zero_probability_nan_counterexample:
  "chanC 0 2 = 0 \<and> chanC 0 3 = 0 \<and>
   compute_all_log_Wjk_den chanC [0, 1] [0, 1, 2, 3] [Fin 0, Fin 1] =
     Inr [MInf, MInf, Fin (ln (1 / 2)), Fin (ln (1 / 2))] \<and>
   compute_log_alpha_k chanC 0 [0, 1, 2, 3] (Fin 0)
     [MInf, MInf, Fin (ln (1 / 2)), Fin (ln (1 / 2))] = Inr NaN \<and>
   compute_bit_rate_efficient chanC [0, 1] [0, 1, 2, 3]
     [MInf, MInf, Fin (ln (1 / 2)), Fin (ln (1 / 2))] [Fin 0, Fin 1] = Inr NaN"
  by (simp add: compute_Wjk_den_def compute_Pjk_col_def compute_log_alpha_k_def
      compute_bit_rate_efficient_def compute_Pjk_row_def chanC_def Let_def fsub_def
      inf_of_sign_def)


section \<open>The floor of the dense form\<close>

text \<open>
  The dense form \<open>compute_rate\<close> clamps. A denominator that is NaN, \<open>-inf\<close> or below
  \<open>1e-50\<close> is replaced by \<open>1e-50\<close> before the division and the log, so the term of a
  finite prior is finite whenever the denominator is not \<open>+inf\<close>, and so is the rate.
  A prior is read only in a term that is not skipped; a prior that is NaN in a row whose
  terms are all skipped makes every denominator NaN and still leaves the rate finite.
\<close>

lemma is_finite_Fin: "is_finite x \<Longrightarrow> \<exists>r. x = Fin r"
  by (cases x) auto

lemma dense_term_clamped_finite: "d \<noteq> PInf \<Longrightarrow> is_finite (dense_term (Fin q) p d)"
proof -
  assume "d \<noteq> PInf"
  then have "is_finite (floor_den d)" by (cases d) (simp_all add: floor_den_def)
  then obtain w where "floor_den d = Fin w" using is_finite_Fin by blast
  then have "dense_term (Fin q) p d = dense_term (Fin q) p (Fin w)"
    using dense_term_floor [of "Fin q" p d] by simp
  then show ?thesis by (simp add: dense_term_Fin)
qed

lemma compute_rate_clamped_finite:
  assumes "length transmitted \<le> length Q"
    and "\<forall>i < length transmitted. \<forall>j < length received.
           P (transmitted ! i) (received ! j) < 1 / 10 ^ 30 \<or>
           (is_finite (Q ! i) \<and> W_float P transmitted (received ! j) Q \<noteq> PInf)"
  shows "\<exists>x. compute_rate P transmitted received Q = Inr (Fin x)"
proof -
  have "is_finite (double_sum (\<lambda>i j. dense_term (Q ! i) (P (transmitted ! i) (received ! j))
                               (W_float P transmitted (received ! j) Q))
            (length transmitted) (length received))"
  proof (rule double_sum_finite)
    fix i j assume ij: "i < length transmitted" "j < length received"
    show "is_finite (dense_term (Q ! i) (P (transmitted ! i) (received ! j))
                               (W_float P transmitted (received ! j) Q))"
    proof (cases "P (transmitted ! i) (received ! j) < 1 / 10 ^ 30")
      case True
      then show ?thesis by (simp add: dense_term_def)
    next
      case False
      with assms(2) ij have f: "is_finite (Q ! i)"
        and w: "W_float P transmitted (received ! j) Q \<noteq> PInf" by auto
      from f obtain q where "Q ! i = Fin q" using is_finite_Fin by blast
      with w show ?thesis by (simp add: dense_term_clamped_finite)
    qed
  qed
  then show ?thesis
    using compute_rate_terms [OF assms(1), of P received] is_finite_Fin by fastforce
qed

lemma compute_rate_nan_denominator:
  "W_float chanD [0, 1] 0 [Fin 1, NaN] = NaN \<and>
   compute_rate chanD [0, 1] [0] [Fin 1, NaN] = Inr (Fin (ln (10 ^ 50)))"
  by (simp add: W_float_def accumulate_def compute_rate_def Let_def read_at_def floor_den_def
      chanD_def)

lemma compute_rate_clamped_finite_example:
  "\<exists>x. compute_rate chanD [0, 1] [0] [Fin 1, NaN] = Inr (Fin x)"
proof -
  have 1: "length [0, 1 :: nat] \<le> length [Fin 1, NaN]" by simp
  have 2: "\<forall>i < length [0, 1 :: nat]. \<forall>j < length [0 :: nat].
           chanD ([0, 1] ! i) ([0] ! j) < 1 / 10 ^ 30 \<or>
           (is_finite ([Fin 1, NaN] ! i) \<and> W_float chanD [0, 1] ([0] ! j) [Fin 1, NaN] \<noteq> PInf)"
    by (simp add: All_less_Suc2 W_float_def accumulate_def chanD_def eval_nat_numeral)
  show ?thesis by (rule compute_rate_clamped_finite [OF 1 2])
qed

lemma chanC_den: "compute_all_log_Wjk_den chanC [0, 1] [0, 1, 2, 3] [Fin 1, Fin 0] =
     Inr [Fin (ln (1 / 2)), Fin (ln (1 / 2)), MInf, MInf]"
  by (simp add: compute_Wjk_den_def compute_Pjk_col_def chanC_def Let_def)

lemma chanC_efficient: "compute_bit_rate_efficient chanC [0, 1] [0, 1, 2, 3]
     [Fin (ln (1 / 2)), Fin (ln (1 / 2)), MInf, MInf] [Fin 1, Fin 0] = Inr NaN"
  by (simp add: compute_bit_rate_efficient_def compute_Pjk_row_def chanC_def Let_def fsub_def
      inf_of_sign_def)

lemma chanC_dense: "compute_rate chanC [0, 1] [0, 1, 2, 3] [Fin 1, Fin 0] = Inr (Fin 0)"
  by (simp add: compute_rate_def Let_def read_at_def floor_den_def chanC_def)

text \<open>
  C9 is what the dense form does and what the row-major form misses. On the channel
  \<open>chanC\<close> with \<open>Q = [1, 0]\<close> the received codewords 2 and 3 have marginal 0. Nothing
  clamps this denominator before its log is taken: \<open>compute_all_log_Wjk_den\<close> returns
  \<open>-inf\<close> for both, and \<open>compute_bit_rate_efficient\<close> returns NaN (\<open>0 * inf\<close> in the
  row of the second transmitted codeword). On the same input \<open>compute_rate\<close> clamps the
  two denominators to \<open>1e-50\<close> and returns the finite rate 0.
\<close>

theorem compute_bit_rate_efficient_no_floor:
  "compute_all_log_Wjk_den chanC [0, 1] [0, 1, 2, 3] [Fin 1, Fin 0] =
     Inr [Fin (ln (1 / 2)), Fin (ln (1 / 2)), MInf, MInf] \<and>
   compute_bit_rate_efficient chanC [0, 1] [0, 1, 2, 3]
     [Fin (ln (1 / 2)), Fin (ln (1 / 2)), MInf, MInf] [Fin 1, Fin 0] = Inr NaN \<and>
   compute_rate chanC [0, 1] [0, 1, 2, 3] [Fin 1, Fin 0] = Inr (Fin 0)"
  using chanC_den chanC_efficient chanC_dense by blast

end
